theory Spec2Isabelle
  imports Main "HOL-Library.Word"
begin

section \<open>Category lifecycle and ordering (server/boards/app/category.go)\<close>

text \<open>
  A shallow embedding of the methods of \<open>App\<close> in \<open>category.go\<close>. The persistence
  store and the websocket adapter are interfaces of the code: the store is a record of
  functions over an arbitrary store state \<open>'s\<close>, and every call that crosses one of the
  two interfaces is written, with its arguments and its answer, to a trace that the
  state carries along. A \<open>go func() { a.wsAdapter.Broadcast... }()\<close> statement is the
  trace entry of the broadcast it dispatches.
\<close>

subsection \<open>Data\<close>

type_synonym int64 = "64 word"

text \<open>
  Modelled from the spec: the struct \<open>model.Category\<close> (section 3 of the spec, and the
  fields \<open>category.go\<close> reads and writes). \<open>Type\<close> is a Go string.
\<close>

record Category =
  ID :: string
  Name :: string
  UserID :: string
  TeamID :: string
  CreateAt :: int64
  UpdateAt :: int64
  DeleteAt :: int64
  Type :: string

text \<open>
  Modelled from the spec: \<open>model.CategoryBoards\<close>, a \<open>Category\<close> (embedded in the Go
  struct) with its board-membership records, each naming a board.
\<close>

record CategoryBoardMetadata =
  BoardID :: string

record CategoryBoards = Category +
  BoardMetadata :: "CategoryBoardMetadata list"

text \<open>Go's \<open>int\<close> on the 64-bit platforms the server is built for.\<close>

record QueryUserCategoriesOptions =
  Page :: int64
  PerPage :: int64

text \<open>Modelled from the spec: the constant \<open>model.CategoryTypeSystem\<close>.\<close>

definition CategoryTypeSystem :: string where
  "CategoryTypeSystem = ''system''"

text \<open>
  Modelled from the spec: the constant \<open>defaultCategoryBoards\<close>, the name of the default
  category (section 3 of the spec).
\<close>

definition defaultCategoryBoards :: string where
  "defaultCategoryBoards = ''Boards''"

subsection \<open>Errors\<close>

text \<open>
  The sentinel errors of \<open>category.go\<close> (lines 14-17), those of package \<open>model\<close> that
  it returns, \<open>errNoDefaultCategoryFound\<close> of the same package, and \<open>fmt.Errorf\<close> with
  its format string and operands. \<open>StoreError\<close> stands for any other error a store
  returns.
\<close>

datatype 'e fmt_arg = ArgErr 'e | ArgInt int | ArgStr string

datatype error =
    errCategoryNotFound
  | errCategoriesLengthMismatch
  | ErrCannotDeleteSystemCategory
  | ErrCannotUpdateSystemCategory
  | ErrCategoryDeleted
  | ErrCategoryPermissionDenied
  | ErrInvalidCategory string
  | errNoDefaultCategoryFound
  | StoreError string
  | Errorf string "error fmt_arg list"

subsection \<open>The store, the adapter and the trace\<close>

text \<open>
  One event for each call of the store, with its arguments and its answer, and for each
  broadcast handed to the adapter. \<open>Visited\<close> is a call of the visitor by
  \<open>ForEachUserCategory\<close>, with the category and the visitor's answer.
\<close>

datatype event =
    GetCategoryCall string "error + Category"
  | UpdateCategoryCall Category "error option"
  | DeleteCategoryCall string string string "error option"
  | GetUserCategoriesCall string string QueryUserCategoriesOptions "error + Category list"
  | GetUserCategoryBoardsCall string string QueryUserCategoriesOptions
      "error + CategoryBoards list"
  | ReorderCategoriesCall string string "string list" "error + string list"
  | AddUpdateUserCategoryBoardCall string string string "string list" "error option"
  | BroadcastCategoryChange Category
  | BroadcastCategoryReorder string string "string list"
  | Visited Category bool "error option"

text \<open>
  The store interface, as \<open>category.go\<close> calls it. A Go result \<open>(v, err)\<close> is a sum,
  a result \<open>err\<close> an option. \<open>sGetUserCategoryBoards\<close> and
  \<open>sAddUpdateUserCategoryBoard\<close> are modelled from the spec (section 6): the first is
  the page source of the board-aware enumeration, the second the association update.
\<close>

record 's Store =
  sGetCategory :: "string \<Rightarrow> 's \<Rightarrow> (error + Category) \<times> 's"
  sUpdateCategory :: "Category \<Rightarrow> 's \<Rightarrow> error option \<times> 's"
  sDeleteCategory :: "string \<Rightarrow> string \<Rightarrow> string \<Rightarrow> 's \<Rightarrow> error option \<times> 's"
  sGetUserCategories ::
    "string \<Rightarrow> string \<Rightarrow> QueryUserCategoriesOptions \<Rightarrow> 's \<Rightarrow> (error + Category list) \<times> 's"
  sGetUserCategoryBoards ::
    "string \<Rightarrow> string \<Rightarrow> QueryUserCategoriesOptions \<Rightarrow> 's
      \<Rightarrow> (error + CategoryBoards list) \<times> 's"
  sReorderCategories ::
    "string \<Rightarrow> string \<Rightarrow> string list \<Rightarrow> 's \<Rightarrow> (error + string list) \<times> 's"
  sAddUpdateUserCategoryBoard ::
    "string \<Rightarrow> string \<Rightarrow> string \<Rightarrow> string list \<Rightarrow> 's \<Rightarrow> error option \<times> 's"

text \<open>
  The application: its store, and the functions of packages \<open>model\<close> and \<open>utils\<close> that
  \<open>category.go\<close> calls and that are taken as parameters: \<open>category.Hydrate()\<close>,
  \<open>category.IsValid()\<close> and the clock value \<open>utils.GetMillis()\<close> returns.
\<close>

record 's App =
  store :: "'s Store"
  Hydrate :: "Category \<Rightarrow> Category"
  IsValid :: "Category \<Rightarrow> error option"
  GetMillis :: int64

record 's world =
  st :: 's
  trace :: "event list"

definition emit :: "event \<Rightarrow> 's world \<Rightarrow> 's world" where
  "emit e w = w\<lparr>trace := trace w @ [e]\<rparr>"

definition store_GetCategory ::
  "'s App \<Rightarrow> string \<Rightarrow> 's world \<Rightarrow> (error + Category) \<times> 's world" where
  "store_GetCategory a categoryID w =
     (case sGetCategory (store a) categoryID (st w) of
        (r, s) \<Rightarrow> (r, emit (GetCategoryCall categoryID r) (w\<lparr>st := s\<rparr>)))"

definition store_UpdateCategory ::
  "'s App \<Rightarrow> Category \<Rightarrow> 's world \<Rightarrow> error option \<times> 's world" where
  "store_UpdateCategory a category w =
     (case sUpdateCategory (store a) category (st w) of
        (r, s) \<Rightarrow> (r, emit (UpdateCategoryCall category r) (w\<lparr>st := s\<rparr>)))"

definition store_DeleteCategory ::
  "'s App \<Rightarrow> string \<Rightarrow> string \<Rightarrow> string \<Rightarrow> 's world \<Rightarrow> error option \<times> 's world" where
  "store_DeleteCategory a categoryID userID teamID w =
     (case sDeleteCategory (store a) categoryID userID teamID (st w) of
        (r, s) \<Rightarrow> (r, emit (DeleteCategoryCall categoryID userID teamID r) (w\<lparr>st := s\<rparr>)))"

definition store_GetUserCategories ::
  "'s App \<Rightarrow> string \<Rightarrow> string \<Rightarrow> QueryUserCategoriesOptions \<Rightarrow> 's world
    \<Rightarrow> (error + Category list) \<times> 's world" where
  "store_GetUserCategories a userID teamID opts w =
     (case sGetUserCategories (store a) userID teamID opts (st w) of
        (r, s) \<Rightarrow> (r, emit (GetUserCategoriesCall userID teamID opts r) (w\<lparr>st := s\<rparr>)))"

definition store_GetUserCategoryBoards ::
  "'s App \<Rightarrow> string \<Rightarrow> string \<Rightarrow> QueryUserCategoriesOptions \<Rightarrow> 's world
    \<Rightarrow> (error + CategoryBoards list) \<times> 's world" where
  "store_GetUserCategoryBoards a userID teamID opts w =
     (case sGetUserCategoryBoards (store a) userID teamID opts (st w) of
        (r, s) \<Rightarrow> (r, emit (GetUserCategoryBoardsCall userID teamID opts r) (w\<lparr>st := s\<rparr>)))"

definition store_ReorderCategories ::
  "'s App \<Rightarrow> string \<Rightarrow> string \<Rightarrow> string list \<Rightarrow> 's world
    \<Rightarrow> (error + string list) \<times> 's world" where
  "store_ReorderCategories a userID teamID newCategoryOrder w =
     (case sReorderCategories (store a) userID teamID newCategoryOrder (st w) of
        (r, s) \<Rightarrow>
          (r, emit (ReorderCategoriesCall userID teamID newCategoryOrder r) (w\<lparr>st := s\<rparr>)))"

definition AddUpdateUserCategoryBoard ::
  "'s App \<Rightarrow> string \<Rightarrow> string \<Rightarrow> string \<Rightarrow> string list \<Rightarrow> 's world
    \<Rightarrow> error option \<times> 's world" where
  "AddUpdateUserCategoryBoard a teamID userID categoryID boardIDs w =
     (case sAddUpdateUserCategoryBoard (store a) teamID userID categoryID boardIDs (st w) of
        (r, s) \<Rightarrow>
          (r, emit (AddUpdateUserCategoryBoardCall teamID userID categoryID boardIDs r)
                (w\<lparr>st := s\<rparr>)))"

subsection \<open>GetCategory and UpdateCategory\<close>

definition GetCategory ::
  "'s App \<Rightarrow> string \<Rightarrow> 's world \<Rightarrow> (error + Category) \<times> 's world" where
  "GetCategory a categoryID w = store_GetCategory a categoryID w"

definition UpdateCategory ::
  "'s App \<Rightarrow> Category \<Rightarrow> 's world \<Rightarrow> (error + Category) \<times> 's world" where
  "UpdateCategory a category0 w =
     (let category = Hydrate a category0 in
      case IsValid a category of
        Some err \<Rightarrow> (Inl err, w)
      | None \<Rightarrow>
          (case store_GetCategory a (ID category) w of
             (Inl err, w1) \<Rightarrow> (Inl err, w1)
           | (Inr existingCategory, w1) \<Rightarrow>
               if DeleteAt existingCategory \<noteq> 0 then (Inl ErrCategoryDeleted, w1)
               else if UserID existingCategory \<noteq> UserID category
                 then (Inl ErrCategoryPermissionDenied, w1)
               else if TeamID existingCategory \<noteq> TeamID category
                 then (Inl ErrCategoryPermissionDenied, w1)
               else
                 (let category = category\<lparr>Type := Type existingCategory\<rparr>;
                      category =
                        (if Type existingCategory = CategoryTypeSystem
                         then category\<lparr>Name := Name existingCategory, DeleteAt := 0\<rparr>
                         else category);
                      category = category\<lparr>UpdateAt := GetMillis a\<rparr>
                  in
                  case IsValid a category of
                    Some err \<Rightarrow> (Inl err, w1)
                  | None \<Rightarrow>
                      (case store_UpdateCategory a category w1 of
                         (Some err, w2) \<Rightarrow> (Inl err, w2)
                       | (None, w2) \<Rightarrow>
                           (case store_GetCategory a (ID category) w2 of
                              (Inl err, w3) \<Rightarrow> (Inl err, w3)
                            | (Inr updatedCategory, w3) \<Rightarrow>
                                (Inr updatedCategory,
                                 emit (BroadcastCategoryChange updatedCategory) w3))))))"

subsection \<open>Enumeration in pages\<close>

definition perPage :: nat where
  "perPage = 50"

text \<open>
  The visitor \<open>fn\<close> is a closure: the variables it captures and assigns are the
  accumulator \<open>'acc\<close> it takes and returns, with its Go result \<open>(done, err)\<close>.
\<close>

type_synonym ('c, 'acc) visitor = "'c \<Rightarrow> 'acc \<Rightarrow> (bool \<times> error option) \<times> 'acc"

text \<open>
  The inner loop of \<open>ForEachUserCategory\<close> (lines 258-262) over one page. The first
  component is \<open>Some err\<close> when the loop executes \<open>return err\<close>, and \<open>None\<close> when
  it runs to the end of the page.
\<close>

fun visitCategories ::
  "(Category, 'acc) visitor \<Rightarrow> Category list \<Rightarrow> 'acc \<Rightarrow> 's world
    \<Rightarrow> error option option \<times> 'acc \<times> 's world" where
  "visitCategories fn [] acc w = (None, acc, w)"
| "visitCategories fn (category # categories) acc w =
     (case fn category acc of
        ((done, err), acc1) \<Rightarrow>
          if err \<noteq> None \<or> done
          then (Some err, acc1, emit (Visited category done err) w)
          else visitCategories fn categories acc1 (emit (Visited category done err) w))"

text \<open>
  The outer loop (lines 250-266), from page \<open>page\<close> on. Nothing bounds the number of
  full pages a store returns, so the loop is a partial function: \<open>None\<close> is a run that
  never returns.
\<close>

partial_function (option) ForEachUserCategory_from ::
  "'s App \<Rightarrow> string \<Rightarrow> string \<Rightarrow> (Category, 'acc) visitor \<Rightarrow> int64 \<Rightarrow> 'acc \<Rightarrow> 's world
    \<Rightarrow> (error option \<times> 'acc \<times> 's world) option" where
  "ForEachUserCategory_from a userID teamID fn page acc w =
     (case store_GetUserCategories a userID teamID
             \<lparr>Page = page, PerPage = of_nat perPage\<rparr> w of
        (Inl err, w1) \<Rightarrow> Some (Some err, acc, w1)
      | (Inr categories, w1) \<Rightarrow>
          (case visitCategories fn categories acc w1 of
             (Some err, acc1, w2) \<Rightarrow> Some (err, acc1, w2)
           | (None, acc1, w2) \<Rightarrow>
               if length categories < perPage then Some (None, acc1, w2)
               else ForEachUserCategory_from a userID teamID fn (page + 1) acc1 w2))"

definition ForEachUserCategory ::
  "'s App \<Rightarrow> string \<Rightarrow> string \<Rightarrow> (Category, 'acc) visitor \<Rightarrow> 'acc \<Rightarrow> 's world
    \<Rightarrow> (error option \<times> 'acc \<times> 's world) option" where
  "ForEachUserCategory a userID teamID fn acc w =
     ForEachUserCategory_from a userID teamID fn 0 acc w"

text \<open>
  Modelled from the spec: \<open>ForEachUserCategoryBoard\<close>, the board-aware variant of the
  enumeration (section 4.2 of the spec): the same loop over pages of \<open>CategoryBoards\<close>.
\<close>

fun visitCategoryBoards ::
  "(CategoryBoards, 'acc) visitor \<Rightarrow> CategoryBoards list \<Rightarrow> 'acc
    \<Rightarrow> error option option \<times> 'acc" where
  "visitCategoryBoards fn [] acc = (None, acc)"
| "visitCategoryBoards fn (categoryBoards # rest) acc =
     (case fn categoryBoards acc of
        ((done, err), acc1) \<Rightarrow>
          if err \<noteq> None \<or> done then (Some err, acc1)
          else visitCategoryBoards fn rest acc1)"

partial_function (option) ForEachUserCategoryBoard_from ::
  "'s App \<Rightarrow> string \<Rightarrow> string \<Rightarrow> (CategoryBoards, 'acc) visitor \<Rightarrow> int64 \<Rightarrow> 'acc
    \<Rightarrow> 's world \<Rightarrow> (error option \<times> 'acc \<times> 's world) option" where
  "ForEachUserCategoryBoard_from a userID teamID fn page acc w =
     (case store_GetUserCategoryBoards a userID teamID
             \<lparr>Page = page, PerPage = of_nat perPage\<rparr> w of
        (Inl err, w1) \<Rightarrow> Some (Some err, acc, w1)
      | (Inr categoryBoards, w1) \<Rightarrow>
          (case visitCategoryBoards fn categoryBoards acc of
             (Some err, acc1) \<Rightarrow> Some (err, acc1, w1)
           | (None, acc1) \<Rightarrow>
               if length categoryBoards < perPage then Some (None, acc1, w1)
               else ForEachUserCategoryBoard_from a userID teamID fn (page + 1) acc1 w1))"

definition ForEachUserCategoryBoard ::
  "'s App \<Rightarrow> string \<Rightarrow> string \<Rightarrow> (CategoryBoards, 'acc) visitor \<Rightarrow> 'acc \<Rightarrow> 's world
    \<Rightarrow> (error option \<times> 'acc \<times> 's world) option" where
  "ForEachUserCategoryBoard a userID teamID fn acc w =
     ForEachUserCategoryBoard_from a userID teamID fn 0 acc w"

subsection \<open>DeleteCategory and the migration of its boards\<close>

text \<open>
  The closure of lines 154-168; it captures \<open>sourceCategoryBoards\<close> (a pointer,
  \<open>nil\<close> at first) and \<open>defaultCategoryID\<close>.
\<close>

definition moveBoards_fn ::
  "string \<Rightarrow> (CategoryBoards, CategoryBoards option \<times> string) visitor" where
  "moveBoards_fn sourceCategoryID categoryBoards captured =
     (case captured of
        (sourceCategoryBoards, defaultCategoryID) \<Rightarrow>
          (let sourceCategoryBoards =
                 (if ID categoryBoards = sourceCategoryID then Some categoryBoards
                  else sourceCategoryBoards);
               defaultCategoryID =
                 (if Name categoryBoards = defaultCategoryBoards then ID categoryBoards
                  else defaultCategoryID)
           in if sourceCategoryBoards \<noteq> None \<and> defaultCategoryID \<noteq> ''''
              then ((True, None), (sourceCategoryBoards, defaultCategoryID))
              else ((False, None), (sourceCategoryBoards, defaultCategoryID))))"

definition moveBoardsToDefaultCategory ::
  "'s App \<Rightarrow> string \<Rightarrow> string \<Rightarrow> string \<Rightarrow> 's world \<Rightarrow> (error option \<times> 's world) option" where
  "moveBoardsToDefaultCategory a userID teamID sourceCategoryID w =
     (case ForEachUserCategoryBoard a userID teamID (moveBoards_fn sourceCategoryID)
             (None, '''') w of
        None \<Rightarrow> None
      | Some (Some err, captured, w1) \<Rightarrow> Some (Some err, w1)
      | Some (None, (None, defaultCategoryID), w1) \<Rightarrow> Some (Some errCategoryNotFound, w1)
      | Some (None, (Some sourceCategoryBoards, defaultCategoryID), w1) \<Rightarrow>
          if defaultCategoryID = ''''
          then Some (Some (Errorf ''moveBoardsToDefaultCategory: %w''
                             [ArgErr errNoDefaultCategoryFound]), w1)
          else
            (let boardIDs = map BoardID (BoardMetadata sourceCategoryBoards) in
             case AddUpdateUserCategoryBoard a teamID userID defaultCategoryID boardIDs w1 of
               (Some err, w2) \<Rightarrow>
                 Some (Some (Errorf ''moveBoardsToDefaultCategory: %w'' [ArgErr err]), w2)
             | (None, w2) \<Rightarrow> Some (None, w2)))"

definition DeleteCategory ::
  "'s App \<Rightarrow> string \<Rightarrow> string \<Rightarrow> string \<Rightarrow> 's world
    \<Rightarrow> ((error + Category) \<times> 's world) option" where
  "DeleteCategory a categoryID userID teamID w =
     (case store_GetCategory a categoryID w of
        (Inl err, w1) \<Rightarrow> Some (Inl err, w1)
      | (Inr existingCategory, w1) \<Rightarrow>
          if DeleteAt existingCategory \<noteq> 0 then Some (Inr existingCategory, w1)
          else if UserID existingCategory \<noteq> userID
            then Some (Inl ErrCategoryPermissionDenied, w1)
          else if TeamID existingCategory \<noteq> teamID
            then Some (Inl (ErrInvalidCategory ''category doesn't belong to the team''), w1)
          else if Type existingCategory = CategoryTypeSystem
            then Some (Inl ErrCannotDeleteSystemCategory, w1)
          else
            (case moveBoardsToDefaultCategory a userID teamID categoryID w1 of
               None \<Rightarrow> None
             | Some (Some err, w2) \<Rightarrow> Some (Inl err, w2)
             | Some (None, w2) \<Rightarrow>
                 (case store_DeleteCategory a categoryID userID teamID w2 of
                    (Some err, w3) \<Rightarrow> Some (Inl err, w3)
                  | (None, w3) \<Rightarrow>
                      (case store_GetCategory a categoryID w3 of
                         (Inl err, w4) \<Rightarrow> Some (Inl err, w4)
                       | (Inr deletedCategory, w4) \<Rightarrow>
                           Some (Inr deletedCategory,
                                 emit (BroadcastCategoryChange deletedCategory) w4)))))"

subsection \<open>ReorderCategories and its validation\<close>

text \<open>
  The closure of lines 213-216; it captures \<open>existingCategoriesMap\<close>, a
  \<open>map[string]struct{}\<close>: a set of strings, \<open>len\<close> its cardinality.
\<close>

definition verify_fn :: "(Category, string set) visitor" where
  "verify_fn category existingCategoriesMap =
     ((False, None), insert (ID category) existingCategoriesMap)"

text \<open>The loop of lines 232-242.\<close>

fun verifyFound :: "string set \<Rightarrow> string \<Rightarrow> string \<Rightarrow> string list \<Rightarrow> error option" where
  "verifyFound existingCategoriesMap userID teamID [] = None"
| "verifyFound existingCategoriesMap userID teamID (newCategoryID # rest) =
     (if newCategoryID \<notin> existingCategoriesMap
      then Some (Errorf ''%w specified category ID: %s, userID: %s, teamID: %s''
                   [ArgErr errCategoryNotFound, ArgStr newCategoryID, ArgStr userID,
                    ArgStr teamID])
      else verifyFound existingCategoriesMap userID teamID rest)"

definition verifyNewCategoriesMatchExisting ::
  "'s App \<Rightarrow> string \<Rightarrow> string \<Rightarrow> string list \<Rightarrow> 's world \<Rightarrow> (error option \<times> 's world) option"
  where
  "verifyNewCategoriesMatchExisting a userID teamID newCategoryOrder w =
     (case ForEachUserCategory a userID teamID verify_fn {} w of
        None \<Rightarrow> None
      | Some (Some err, existingCategoriesMap, w1) \<Rightarrow>
          Some (Some (Errorf ''error fetching user categories: %w'' [ArgErr err]), w1)
      | Some (None, existingCategoriesMap, w1) \<Rightarrow>
          if length newCategoryOrder \<noteq> card existingCategoriesMap
          then Some (Some (Errorf
                  ''%w length new categories: %d, length existing categories: %d, userID: %s, teamID: %s''
                  [ArgErr errCategoriesLengthMismatch, ArgInt (int (length newCategoryOrder)),
                   ArgInt (int (card existingCategoriesMap)), ArgStr userID, ArgStr teamID]),
                w1)
          else Some (verifyFound existingCategoriesMap userID teamID newCategoryOrder, w1))"

definition ReorderCategories ::
  "'s App \<Rightarrow> string \<Rightarrow> string \<Rightarrow> string list \<Rightarrow> 's world
    \<Rightarrow> ((error + string list) \<times> 's world) option" where
  "ReorderCategories a userID teamID newCategoryOrder w =
     (case verifyNewCategoriesMatchExisting a userID teamID newCategoryOrder w of
        None \<Rightarrow> None
      | Some (Some err, w1) \<Rightarrow> Some (Inl err, w1)
      | Some (None, w1) \<Rightarrow>
          (case store_ReorderCategories a userID teamID newCategoryOrder w1 of
             (Inl err, w2) \<Rightarrow> Some (Inl err, w2)
           | (Inr newOrder, w2) \<Rightarrow>
               Some (Inr newOrder, emit (BroadcastCategoryReorder teamID userID newOrder) w2)))"

declare ForEachUserCategory_from.simps [code]
declare ForEachUserCategoryBoard_from.simps [code]

subsection \<open>Reading a trace\<close>

text \<open>
  The requests for a page of categories in a trace, in order, each with the store's
  answer; the categories these answers list; and the events after which
  \<open>ForEachUserCategory\<close> returns at once: a page the store answers with an error, and a
  visit the visitor answers with \<open>done\<close> or with an error.
\<close>

fun pageCalls ::
  "event list
    \<Rightarrow> (string \<times> string \<times> QueryUserCategoriesOptions \<times> (error + Category list)) list" where
  "pageCalls [] = []"
| "pageCalls (GetUserCategoriesCall u t opts res # evs) = (u, t, opts, res) # pageCalls evs"
| "pageCalls (e # evs) = pageCalls evs"

fun listed :: "event list \<Rightarrow> Category list" where
  "listed [] = []"
| "listed (GetUserCategoriesCall u t opts (Inr cs) # evs) = cs @ listed evs"
| "listed (e # evs) = listed evs"


fun stops :: "event \<Rightarrow> bool" where
  "stops (GetUserCategoriesCall u t opts (Inl e)) = True"
| "stops (Visited c d err) = (d \<or> err \<noteq> None)"
| "stops e = False"

fun isVisited :: "event \<Rightarrow> bool" where
  "isVisited (Visited c d err) = True"
| "isVisited e = False"

text \<open>
  The shape of the part \<open>evs\<close> that an enumeration from page \<open>page\<close> on adds to the
  trace when it returns \<open>r\<close>: it requests the pages \<open>page\<close>, \<open>page + 1\<close>, ... of the
  scope, 50 categories each; no event but the last ends the enumeration; every page
  but the last requested is a full one; and the last event decides \<open>r\<close>.
\<close>

definition enumInv ::
  "string \<Rightarrow> string \<Rightarrow> int64 \<Rightarrow> event list \<Rightarrow> error option \<Rightarrow> bool" where
  "enumInv userID teamID page evs r \<longleftrightarrow>
     evs \<noteq> [] \<and> pageCalls evs \<noteq> [] \<and>
     (\<forall>e\<in>set evs.
        isVisited e \<or> (\<exists>opts res. e = GetUserCategoriesCall userID teamID opts res)) \<and>
     map (\<lambda>(u, t, opts, res). (u, t, opts)) (pageCalls evs) =
       map (\<lambda>i. (userID, teamID, \<lparr>Page = page + of_nat i, PerPage = 50\<rparr>))
         [0..<length (pageCalls evs)] \<and>
     (\<forall>e\<in>set (butlast evs). \<not> stops e) \<and>
     (\<forall>x\<in>set (butlast (pageCalls evs)). \<exists>cs. snd (snd (snd x)) = Inr cs \<and> 50 \<le> length cs) \<and>
     (\<forall>u t opts e. last evs = GetUserCategoriesCall u t opts (Inl e) \<longrightarrow> r = Some e) \<and>
     (\<forall>c d err. last evs = Visited c d err \<and> (d \<or> err \<noteq> None) \<longrightarrow> r = err) \<and>
     (\<not> stops (last evs) \<longrightarrow>
        r = None \<and>
        (\<exists>u t opts cs. last (pageCalls evs) = (u, t, opts, Inr cs) \<and> length cs < 50))"

text \<open>
  What a visitor does when it is called on the items of a list in order:
  \<open>accAfter\<close> is what it has captured after the whole list, \<open>answer ... i\<close> is its
  answer \<open>(done, err)\<close> on item \<open>i\<close>. \<open>visits\<close> are the calls of the visitor in a
  trace, each with the visitor's answer. \<open>visitsInv\<close> ties the visits of an
  enumeration to its visitor: the visitor has been called on the listed categories in
  order and without a gap, every visit carries the visitor's own answer, \<open>acc'\<close> is
  what the visitor has captured after these calls, and a run that no event has ended
  has visited every listed category.
\<close>

definition accAfter :: "('c, 'acc) visitor \<Rightarrow> 'c list \<Rightarrow> 'acc \<Rightarrow> 'acc" where
  "accAfter fn cs acc = fold (\<lambda>c acc. snd (fn c acc)) cs acc"

definition answer :: "('c, 'acc) visitor \<Rightarrow> 'c list \<Rightarrow> 'acc \<Rightarrow> nat \<Rightarrow> bool \<times> error option" where
  "answer fn cs acc i = fst (fn (cs ! i) (accAfter fn (take i cs) acc))"

fun visits :: "event list \<Rightarrow> (Category \<times> bool \<times> error option) list" where
  "visits [] = []"
| "visits (Visited c d err # evs) = (c, d, err) # visits evs"
| "visits (e # evs) = visits evs"

definition visitsInv ::
  "(Category, 'acc) visitor \<Rightarrow> 'acc \<Rightarrow> event list \<Rightarrow> 'acc \<Rightarrow> bool" where
  "visitsInv fn acc evs acc' \<longleftrightarrow>
     map fst (visits evs) = take (length (visits evs)) (listed evs) \<and>
     (\<forall>k<length (visits evs). snd (visits evs ! k) = answer fn (listed evs) acc k) \<and>
     acc' = accAfter fn (map fst (visits evs)) acc \<and>
     (\<not> stops (last evs) \<longrightarrow> length (visits evs) = length (listed evs))"

subsection \<open>A store in memory, for the examples\<close>

text \<open>
  The rows of the store are categories with their boards. Reads list the rows of a scope
  that are not deleted, in pages; \<open>sReorderCategories\<close> answers with the order
  \<open>commit\<close> makes of the one it is given.
\<close>

definition asCategory :: "CategoryBoards \<Rightarrow> Category" where
  "asCategory r =
     \<lparr>ID = ID r, Name = Name r, UserID = UserID r, TeamID = TeamID r, CreateAt = CreateAt r,
      UpdateAt = UpdateAt r, DeleteAt = DeleteAt r, Type = Type r\<rparr>"

definition pageOf :: "QueryUserCategoriesOptions \<Rightarrow> 'a list \<Rightarrow> 'a list" where
  "pageOf opts xs =
     take (unat (PerPage opts)) (drop (unat (Page opts) * unat (PerPage opts)) xs)"

definition inScope :: "string \<Rightarrow> string \<Rightarrow> CategoryBoards \<Rightarrow> bool" where
  "inScope userID teamID r \<longleftrightarrow> UserID r = userID \<and> TeamID r = teamID \<and> DeleteAt r = 0"

definition memStore :: "(string list \<Rightarrow> string list) \<Rightarrow> CategoryBoards list Store" where
  "memStore commit =
     \<lparr>sGetCategory = (\<lambda>categoryID rows.
        (case find (\<lambda>r. ID r = categoryID) rows of
           None \<Rightarrow> Inl (StoreError ''category not found'')
         | Some r \<Rightarrow> Inr (asCategory r), rows)),
      sUpdateCategory = (\<lambda>category rows.
        (None, map (\<lambda>r. if ID r = ID category
                         then r\<lparr>Name := Name category, UpdateAt := UpdateAt category,
                                DeleteAt := DeleteAt category, Type := Type category\<rparr>
                         else r) rows)),
      sDeleteCategory = (\<lambda>categoryID userID teamID rows.
        (None, map (\<lambda>r. if ID r = categoryID then r\<lparr>DeleteAt := 1\<rparr> else r) rows)),
      sGetUserCategories = (\<lambda>userID teamID opts rows.
        (Inr (pageOf opts (map asCategory (filter (inScope userID teamID) rows))), rows)),
      sGetUserCategoryBoards = (\<lambda>userID teamID opts rows.
        (Inr (pageOf opts (filter (inScope userID teamID) rows)), rows)),
      sReorderCategories = (\<lambda>userID teamID newCategoryOrder rows.
        (Inr (commit newCategoryOrder), rows)),
      sAddUpdateUserCategoryBoard = (\<lambda>teamID userID categoryID boardIDs rows.
        (None, map (\<lambda>r. if ID r = categoryID
                         then r\<lparr>BoardMetadata :=
                                  BoardMetadata r @ map (\<lambda>b. \<lparr>BoardID = b\<rparr>) boardIDs\<rparr>
                         else r\<lparr>BoardMetadata :=
                                  filter (\<lambda>m. BoardID m \<notin> set boardIDs) (BoardMetadata r)\<rparr>)
                 rows))\<rparr>"

definition demoApp :: "(string list \<Rightarrow> string list) \<Rightarrow> CategoryBoards list App" where
  "demoApp commit =
     \<lparr>store = memStore commit,
      Hydrate = (\<lambda>c. if Type c = '''' then c\<lparr>Type := ''custom''\<rparr> else c),
      IsValid = (\<lambda>c. if ID c = '''' then Some (ErrInvalidCategory ''category ID cannot be empty'')
                      else if Type c \<noteq> ''custom'' \<and> Type c \<noteq> ''system''
                        then Some (ErrInvalidCategory ''category type is invalid'')
                      else None),
      GetMillis = 1700000000000\<rparr>"

definition rowDefault :: CategoryBoards where
  "rowDefault = \<lparr>ID = ''default'', Name = ''Boards'', UserID = ''u1'', TeamID = ''t1'',
     CreateAt = 1, UpdateAt = 1, DeleteAt = 0, Type = ''system'', BoardMetadata = []\<rparr>"

definition rowWork :: CategoryBoards where
  "rowWork = \<lparr>ID = ''work'', Name = ''Work'', UserID = ''u1'', TeamID = ''t1'',
     CreateAt = 2, UpdateAt = 2, DeleteAt = 0, Type = ''custom'',
     BoardMetadata = [\<lparr>BoardID = ''b1''\<rparr>, \<lparr>BoardID = ''b2''\<rparr>]\<rparr>"

definition rowOld :: CategoryBoards where
  "rowOld = \<lparr>ID = ''old'', Name = ''Old'', UserID = ''u1'', TeamID = ''t1'',
     CreateAt = 3, UpdateAt = 4, DeleteAt = 4, Type = ''custom'', BoardMetadata = []\<rparr>"

definition demoWorld :: "CategoryBoards list world" where
  "demoWorld = \<lparr>st = [rowDefault, rowWork, rowOld], trace = []\<rparr>"

text \<open>An update that renames the default category, marks it deleted and makes it custom.\<close>

definition renameDefault :: Category where
  "renameDefault = \<lparr>ID = ''default'', Name = ''Mine'', UserID = ''u1'', TeamID = ''t1'',
     CreateAt = 1, UpdateAt = 1, DeleteAt = 7, Type = ''custom''\<rparr>"


text \<open>
  A visitor that counts its calls and answers \<open>done\<close> at one ID, and a store that
  answers the first page of a scope with 50 copies of one category and any other page
  with \<open>second\<close>.
\<close>

definition stopAt :: "string \<Rightarrow> (Category, nat) visitor" where
  "stopAt categoryID category n = ((ID category = categoryID, None), Suc n)"

definition pagedApp :: "(error + Category list) \<Rightarrow> CategoryBoards list App" where
  "pagedApp second =
     (demoApp id)\<lparr>store := (memStore id)\<lparr>sGetUserCategories :=
        (\<lambda>userID teamID opts rows.
           (if Page opts = 0 then Inr (replicate 50 (asCategory rowWork)) else second, rows))\<rparr>\<rparr>"

definition secondPage :: "Category list" where
  "secondPage = [asCategory rowDefault, asCategory rowOld, asCategory rowWork]"

lemmas demo_defs = demoApp_def memStore_def demoWorld_def rowDefault_def rowWork_def rowOld_def
  asCategory_def pageOf_def inScope_def emit_def store_GetCategory_def store_UpdateCategory_def
  store_DeleteCategory_def store_GetUserCategories_def store_GetUserCategoryBoards_def
  store_ReorderCategories_def AddUpdateUserCategoryBoard_def perPage_def
  CategoryTypeSystem_def defaultCategoryBoards_def

section \<open>Properties\<close>

subsection \<open>Store calls and the trace\<close>

lemma emit_simps [simp]: "trace (emit e w) = trace w @ [e]" "st (emit e w) = st w"
  by (simp_all add: emit_def)

lemma store_GetCategory_eq:
  "sGetCategory (store a) categoryID (st w) = (r, s) \<Longrightarrow>
   store_GetCategory a categoryID w =
     (r, w\<lparr>st := s, trace := trace w @ [GetCategoryCall categoryID r]\<rparr>)"
  by (simp add: store_GetCategory_def emit_def)

subsection \<open>DeleteCategory: the checks before the migration\<close>

text \<open>A first deletion of the category \<open>work\<close> in the example store.\<close>

lemma demo_delete_work:
  "\<exists>w'. DeleteCategory (demoApp id) ''work'' ''u1'' ''t1'' demoWorld
           = Some (Inr (asCategory rowWork\<lparr>DeleteAt := 1\<rparr>), w')
        \<and> sGetCategory (store (demoApp id)) ''work'' (st w')
           = (Inr (asCategory rowWork\<lparr>DeleteAt := 1\<rparr>), st w')"
  by (simp add: DeleteCategory_def moveBoardsToDefaultCategory_def ForEachUserCategoryBoard_def
      ForEachUserCategoryBoard_from.simps moveBoards_fn_def demo_defs)

text \<open>
  C5. When the stored category has a non-zero \<open>DeleteAt\<close>, \<open>DeleteCategory\<close> succeeds
  with the stored record as it is (so with the \<open>DeleteAt\<close> it already had), and the one
  read of the category is all it does: no store write and no notification follow.
\<close>

theorem DeleteCategory_idempotent:
  assumes "sGetCategory (store a) categoryID (st w) = (Inr existingCategory, s1)"
    and "DeleteAt existingCategory \<noteq> 0"
  shows "DeleteCategory a categoryID userID teamID w =
           Some (Inr existingCategory,
                 w\<lparr>st := s1,
                   trace := trace w @ [GetCategoryCall categoryID (Inr existingCategory)]\<rparr>)"
  using assms by (simp add: DeleteCategory_def store_GetCategory_eq)

theorem DeleteCategory_idempotent_witness:
  "sGetCategory (store (demoApp id)) ''old'' (st demoWorld) = (Inr (asCategory rowOld), st demoWorld)
   \<and> DeleteAt (asCategory rowOld) \<noteq> 0
   \<and> DeleteCategory (demoApp id) ''old'' ''u1'' ''t1'' demoWorld =
       Some (Inr (asCategory rowOld),
             demoWorld\<lparr>trace := [GetCategoryCall ''old'' (Inr (asCategory rowOld))]\<rparr>)
   \<and> (\<exists>w' w''.
         DeleteCategory (demoApp id) ''work'' ''u1'' ''t1'' demoWorld
           = Some (Inr (asCategory rowWork\<lparr>DeleteAt := 1\<rparr>), w')
       \<and> DeleteCategory (demoApp id) ''work'' ''u1'' ''t1'' w'
           = Some (Inr (asCategory rowWork\<lparr>DeleteAt := 1\<rparr>), w'')
       \<and> trace w'' =
           trace w' @ [GetCategoryCall ''work'' (Inr (asCategory rowWork\<lparr>DeleteAt := 1\<rparr>))])"
proof -
  have g: "sGetCategory (store (demoApp id)) ''old'' (st demoWorld)
      = (Inr (asCategory rowOld), st demoWorld)"
    by (simp add: demo_defs)
  have d: "DeleteAt (asCategory rowOld) \<noteq> 0"
    by (simp add: demo_defs)
  from DeleteCategory_idempotent [OF g d, of "''u1''" "''t1''"]
  have once: "DeleteCategory (demoApp id) ''old'' ''u1'' ''t1'' demoWorld =
       Some (Inr (asCategory rowOld),
             demoWorld\<lparr>trace := [GetCategoryCall ''old'' (Inr (asCategory rowOld))]\<rparr>)"
    by (simp add: demoWorld_def)
  from demo_delete_work obtain w' where
    first: "DeleteCategory (demoApp id) ''work'' ''u1'' ''t1'' demoWorld
           = Some (Inr (asCategory rowWork\<lparr>DeleteAt := 1\<rparr>), w')"
    and g': "sGetCategory (store (demoApp id)) ''work'' (st w')
           = (Inr (asCategory rowWork\<lparr>DeleteAt := 1\<rparr>), st w')"
    by blast
  have d': "DeleteAt (asCategory rowWork\<lparr>DeleteAt := 1\<rparr>) \<noteq> 0" by simp
  from DeleteCategory_idempotent [OF g' d', of "''u1''" "''t1''"] first
  have twice: "\<exists>w' w''.
         DeleteCategory (demoApp id) ''work'' ''u1'' ''t1'' demoWorld
           = Some (Inr (asCategory rowWork\<lparr>DeleteAt := 1\<rparr>), w')
       \<and> DeleteCategory (demoApp id) ''work'' ''u1'' ''t1'' w'
           = Some (Inr (asCategory rowWork\<lparr>DeleteAt := 1\<rparr>), w'')
       \<and> trace w'' =
           trace w' @ [GetCategoryCall ''work'' (Inr (asCategory rowWork\<lparr>DeleteAt := 1\<rparr>))]"
    by simp
  from g d once twice show ?thesis by blast
qed

text \<open>
  C7. For an active stored category: when its \<open>UserID\<close> is not the caller's, the call
  fails with \<open>ErrCategoryPermissionDenied\<close>; otherwise, when its \<open>TeamID\<close> is not the
  caller's, the call fails with an invalid-category error, which is another error. In
  both cases the read of the category is the only store call.
\<close>

theorem DeleteCategory_authorization:
  assumes "sGetCategory (store a) categoryID (st w) = (Inr existingCategory, s1)"
    and "DeleteAt existingCategory = 0"
  shows "(UserID existingCategory \<noteq> userID \<longrightarrow>
            DeleteCategory a categoryID userID teamID w =
              Some (Inl ErrCategoryPermissionDenied,
                    w\<lparr>st := s1,
                      trace := trace w @ [GetCategoryCall categoryID (Inr existingCategory)]\<rparr>))
       \<and> (UserID existingCategory = userID \<and> TeamID existingCategory \<noteq> teamID \<longrightarrow>
            DeleteCategory a categoryID userID teamID w =
              Some (Inl (ErrInvalidCategory ''category doesn't belong to the team''),
                    w\<lparr>st := s1,
                      trace := trace w @ [GetCategoryCall categoryID (Inr existingCategory)]\<rparr>))
       \<and> ErrInvalidCategory ''category doesn't belong to the team'' \<noteq> ErrCategoryPermissionDenied"
  using assms by (simp add: DeleteCategory_def store_GetCategory_eq)

theorem DeleteCategory_authorization_witness:
  "sGetCategory (store (demoApp id)) ''work'' (st demoWorld) = (Inr (asCategory rowWork), st demoWorld)
   \<and> DeleteAt (asCategory rowWork) = 0
   \<and> DeleteCategory (demoApp id) ''work'' ''u2'' ''t1'' demoWorld =
       Some (Inl ErrCategoryPermissionDenied,
             demoWorld\<lparr>trace := [GetCategoryCall ''work'' (Inr (asCategory rowWork))]\<rparr>)
   \<and> DeleteCategory (demoApp id) ''work'' ''u1'' ''t2'' demoWorld =
       Some (Inl (ErrInvalidCategory ''category doesn't belong to the team''),
             demoWorld\<lparr>trace := [GetCategoryCall ''work'' (Inr (asCategory rowWork))]\<rparr>)"
proof -
  have g: "sGetCategory (store (demoApp id)) ''work'' (st demoWorld)
      = (Inr (asCategory rowWork), st demoWorld)"
    by (simp add: demo_defs)
  have d: "DeleteAt (asCategory rowWork) = 0"
    by (simp add: demo_defs)
  have u: "UserID (asCategory rowWork) = ''u1''" "TeamID (asCategory rowWork) = ''t1''"
    by (simp_all add: demo_defs)
  from DeleteCategory_authorization [OF g d, of "''u2''" "''t1''"]
    DeleteCategory_authorization [OF g d, of "''u1''" "''t2''"] g d u
  show ?thesis
    by (simp add: demoWorld_def)
qed

text \<open>
  C4. For an active category of the caller's user and team whose stored \<open>Type\<close> is
  system, the call fails with \<open>ErrCannotDeleteSystemCategory\<close>; the read of the
  category is the only store call, so neither the migration nor the store's
  \<open>DeleteCategory\<close> runs, and the store is left as the read left it.
\<close>

theorem DeleteCategory_system_refused:
  assumes "sGetCategory (store a) categoryID (st w) = (Inr existingCategory, s1)"
    and "DeleteAt existingCategory = 0"
    and "UserID existingCategory = userID" and "TeamID existingCategory = teamID"
    and "Type existingCategory = CategoryTypeSystem"
  shows "DeleteCategory a categoryID userID teamID w =
           Some (Inl ErrCannotDeleteSystemCategory,
                 w\<lparr>st := s1,
                   trace := trace w @ [GetCategoryCall categoryID (Inr existingCategory)]\<rparr>)"
  using assms by (simp add: DeleteCategory_def store_GetCategory_eq)

theorem DeleteCategory_system_refused_witness:
  "sGetCategory (store (demoApp id)) ''default'' (st demoWorld)
     = (Inr (asCategory rowDefault), st demoWorld)
   \<and> DeleteAt (asCategory rowDefault) = 0
   \<and> UserID (asCategory rowDefault) = ''u1'' \<and> TeamID (asCategory rowDefault) = ''t1''
   \<and> Type (asCategory rowDefault) = CategoryTypeSystem
   \<and> DeleteCategory (demoApp id) ''default'' ''u1'' ''t1'' demoWorld =
       Some (Inl ErrCannotDeleteSystemCategory,
             demoWorld\<lparr>trace := [GetCategoryCall ''default'' (Inr (asCategory rowDefault))]\<rparr>)"
proof -
  have g: "sGetCategory (store (demoApp id)) ''default'' (st demoWorld)
      = (Inr (asCategory rowDefault), st demoWorld)"
    by (simp add: demo_defs)
  have d: "DeleteAt (asCategory rowDefault) = 0"
    and u: "UserID (asCategory rowDefault) = ''u1''"
    and t: "TeamID (asCategory rowDefault) = ''t1''"
    and s: "Type (asCategory rowDefault) = CategoryTypeSystem"
    by (simp_all add: demo_defs)
  from DeleteCategory_system_refused [OF g d u t s] g d u t s show ?thesis
    by (simp add: demoWorld_def)
qed

text \<open>
  C10. The check for a deleted category comes before the checks of user and team: when
  the stored \<open>DeleteAt\<close> is non-zero, \<open>DeleteCategory\<close> returns the stored category with
  success also to a caller whose \<open>userID\<close> or \<open>teamID\<close> is not the stored one, and not
  \<open>ErrCategoryPermissionDenied\<close>.
\<close>

theorem DeleteCategory_deleted_before_ownership:
  assumes "sGetCategory (store a) categoryID (st w) = (Inr existingCategory, s1)"
    and "DeleteAt existingCategory \<noteq> 0"
    and "UserID existingCategory \<noteq> userID \<or> TeamID existingCategory \<noteq> teamID"
  shows "(\<exists>w'. DeleteCategory a categoryID userID teamID w = Some (Inr existingCategory, w'))
       \<and> (\<forall>w'. DeleteCategory a categoryID userID teamID w
                \<noteq> Some (Inl ErrCategoryPermissionDenied, w'))"
  using assms by (simp add: DeleteCategory_def store_GetCategory_eq)

theorem DeleteCategory_deleted_before_ownership_witness:
  "sGetCategory (store (demoApp id)) ''old'' (st demoWorld) = (Inr (asCategory rowOld), st demoWorld)
   \<and> DeleteAt (asCategory rowOld) \<noteq> 0
   \<and> UserID (asCategory rowOld) \<noteq> ''u2''
   \<and> (\<exists>w'. DeleteCategory (demoApp id) ''old'' ''u2'' ''t1'' demoWorld
              = Some (Inr (asCategory rowOld), w'))"
proof -
  have g: "sGetCategory (store (demoApp id)) ''old'' (st demoWorld)
      = (Inr (asCategory rowOld), st demoWorld)"
    by (simp add: demo_defs)
  have d: "DeleteAt (asCategory rowOld) \<noteq> 0"
    and u: "UserID (asCategory rowOld) \<noteq> ''u2''"
    by (simp_all add: demo_defs)
  from u have u': "UserID (asCategory rowOld) \<noteq> ''u2'' \<or> TeamID (asCategory rowOld) \<noteq> ''t1''"
    by simp
  from DeleteCategory_deleted_before_ownership [OF g d u'] g d u show ?thesis
    by simp
qed

subsection \<open>UpdateCategory\<close>

text \<open>
  C1. When the category exists, is not deleted and has the user and team of the
  caller's (hydrated) category, every category that \<open>UpdateCategory\<close> hands to the
  store's \<open>UpdateCategory\<close> has the stored \<open>Type\<close>, whatever the caller's; when the
  stored \<open>Type\<close> is system, it also has the stored \<open>Name\<close> and \<open>DeleteAt = 0\<close>,
  whatever the caller's. A call that succeeds has made such a write.
\<close>

theorem UpdateCategory_forces_existing:
  assumes "sGetCategory (store a) (ID (Hydrate a category)) (st w) = (Inr existingCategory, s1)"
    and "DeleteAt existingCategory = 0"
    and "UserID existingCategory = UserID (Hydrate a category)"
    and "TeamID existingCategory = TeamID (Hydrate a category)"
    and "UpdateCategory a category w = (r, w')"
  shows "\<exists>evs. trace w' = trace w @ evs \<and>
     (\<forall>c res. UpdateCategoryCall c res \<in> set evs \<longrightarrow>
        Type c = Type existingCategory \<and>
        (Type existingCategory = CategoryTypeSystem \<longrightarrow>
           Name c = Name existingCategory \<and> DeleteAt c = 0)) \<and>
     (\<forall>updatedCategory. r = Inr updatedCategory \<longrightarrow> (\<exists>c. UpdateCategoryCall c None \<in> set evs))"
  using assms
  by (auto simp: UpdateCategory_def Let_def store_GetCategory_eq store_GetCategory_def
      store_UpdateCategory_def split: option.splits prod.splits sum.splits if_splits)

theorem UpdateCategory_forces_existing_witness:
  "sGetCategory (store (demoApp id)) (ID (Hydrate (demoApp id) renameDefault)) (st demoWorld)
     = (Inr (asCategory rowDefault), st demoWorld)
   \<and> DeleteAt (asCategory rowDefault) = 0
   \<and> UserID (asCategory rowDefault) = UserID (Hydrate (demoApp id) renameDefault)
   \<and> TeamID (asCategory rowDefault) = TeamID (Hydrate (demoApp id) renameDefault)
   \<and> Type (asCategory rowDefault) = CategoryTypeSystem
   \<and> Name renameDefault \<noteq> Name (asCategory rowDefault)
   \<and> (\<exists>updatedCategory w'. UpdateCategory (demoApp id) renameDefault demoWorld = (Inr updatedCategory, w')
        \<and> (\<exists>c. UpdateCategoryCall c None \<in> set (trace w')
              \<and> Type c = ''system'' \<and> Name c = ''Boards'' \<and> DeleteAt c = 0))"
proof -
  let ?a = "demoApp id :: CategoryBoards list App"
  have g: "sGetCategory (store ?a) (ID (Hydrate ?a renameDefault)) (st demoWorld)
     = (Inr (asCategory rowDefault), st demoWorld)"
    by (simp add: demo_defs renameDefault_def)
  have d: "DeleteAt (asCategory rowDefault) = 0"
    and u: "UserID (asCategory rowDefault) = UserID (Hydrate ?a renameDefault)"
    and t: "TeamID (asCategory rowDefault) = TeamID (Hydrate ?a renameDefault)"
    and s: "Type (asCategory rowDefault) = CategoryTypeSystem"
    and n: "Name renameDefault \<noteq> Name (asCategory rowDefault)"
    by (simp_all add: demo_defs renameDefault_def)
  obtain r w' where run: "UpdateCategory ?a renameDefault demoWorld = (r, w')"
    by (cases "UpdateCategory ?a renameDefault demoWorld") auto
  have ok: "\<exists>updatedCategory. r = Inr updatedCategory" and t0: "trace demoWorld = []"
    using run by (auto simp: UpdateCategory_def Let_def demo_defs renameDefault_def)
  have ty: "Type (asCategory rowDefault) = ''system''"
    and nm: "Name (asCategory rowDefault) = ''Boards''"
    by (simp_all add: asCategory_def rowDefault_def)
  from ok obtain updatedCategory where r: "r = Inr updatedCategory" by blast
  from UpdateCategory_forces_existing [OF g d u t run] r s t0 ty nm
  have "\<exists>c. UpdateCategoryCall c None \<in> set (trace w')
          \<and> Type c = ''system'' \<and> Name c = ''Boards'' \<and> DeleteAt c = 0"
    by fastforce
  with run r have "\<exists>updatedCategory w'.
      UpdateCategory ?a renameDefault demoWorld = (Inr updatedCategory, w')
      \<and> (\<exists>c. UpdateCategoryCall c None \<in> set (trace w')
            \<and> Type c = ''system'' \<and> Name c = ''Boards'' \<and> DeleteAt c = 0)"
    by blast
  with g d u t s n show ?thesis by blast
qed

subsection \<open>The enumeration\<close>

text \<open>
  An induction rule for the runs of the outer loop that return: one case for each way
  an iteration ends.
\<close>

lemma ForEachUserCategory_from_rule [consumes 1, case_names err stop short step]:
  assumes run: "ForEachUserCategory_from a userID teamID fn page acc w = Some y"
    and err: "\<And>page acc w e w1.
      store_GetUserCategories a userID teamID \<lparr>Page = page, PerPage = of_nat perPage\<rparr> w
        = (Inl e, w1) \<Longrightarrow> P page acc w (Some e, acc, w1)"
    and stop: "\<And>page acc w cs w1 e acc1 w2.
      store_GetUserCategories a userID teamID \<lparr>Page = page, PerPage = of_nat perPage\<rparr> w
        = (Inr cs, w1) \<Longrightarrow>
      visitCategories fn cs acc w1 = (Some e, acc1, w2) \<Longrightarrow> P page acc w (e, acc1, w2)"
    and short: "\<And>page acc w cs w1 acc1 w2.
      store_GetUserCategories a userID teamID \<lparr>Page = page, PerPage = of_nat perPage\<rparr> w
        = (Inr cs, w1) \<Longrightarrow>
      visitCategories fn cs acc w1 = (None, acc1, w2) \<Longrightarrow> length cs < perPage \<Longrightarrow>
      P page acc w (None, acc1, w2)"
    and step: "\<And>page acc w cs w1 acc1 w2 y.
      store_GetUserCategories a userID teamID \<lparr>Page = page, PerPage = of_nat perPage\<rparr> w
        = (Inr cs, w1) \<Longrightarrow>
      visitCategories fn cs acc w1 = (None, acc1, w2) \<Longrightarrow> \<not> length cs < perPage \<Longrightarrow>
      P (page + 1) acc1 w2 y \<Longrightarrow> P page acc w y"
  shows "P page acc w y"
proof -
  let ?Q = "\<lambda>a' u' t' fn' page acc w y.
    a' = a \<and> u' = userID \<and> t' = teamID \<and> fn' = fn \<longrightarrow> P page acc w y"
  have "?Q a userID teamID fn page acc w y"
  proof (rule ForEachUserCategory_from.raw_induct[where P = ?Q, OF _ run])
    fix f a' u' t' fn' page acc w y
    assume IH: "\<And>u' t' fn' page acc w b y. f u' t' fn' page acc w b = Some y \<Longrightarrow>
       ?Q u' t' fn' page acc w b y"
    assume body: "(case store_GetUserCategories a' u' t'
            \<lparr>Page = page, PerPage = word_of_nat perPage\<rparr> w of
      (Inl err, w1) \<Rightarrow> Some (Some err, acc, w1)
      | (Inr categories, w1) \<Rightarrow>
          case visitCategories fn' categories acc w1 of
          (None, acc1, w2) \<Rightarrow>
            if length categories < perPage then Some (None, acc1, w2)
            else f a' u' t' fn' (page + 1) acc1 w2
          | (Some err, acc1, w2) \<Rightarrow> Some (err, acc1, w2)) = Some y"
    show "?Q a' u' t' fn' page acc w y"
    proof (intro impI, elim conjE)
      assume eqs: "a' = a" "u' = userID" "t' = teamID" "fn' = fn"
      obtain r w1 where g: "store_GetUserCategories a userID teamID
          \<lparr>Page = page, PerPage = of_nat perPage\<rparr> w = (r, w1)"
        by (cases "store_GetUserCategories a userID teamID
          \<lparr>Page = page, PerPage = of_nat perPage\<rparr> w") auto
      show "P page acc w y"
      proof (cases r)
        case (Inl e)
        with body g eqs show ?thesis by (auto intro: err)
      next
        case (Inr cs)
        obtain v acc1 w2 where v: "visitCategories fn cs acc w1 = (v, acc1, w2)"
          by (cases "visitCategories fn cs acc w1") auto
        show ?thesis
        proof (cases v)
          case (Some e)
          with body g eqs Inr v show ?thesis by (auto intro: stop)
        next
          case None
          show ?thesis
          proof (cases "length cs < perPage")
            case True
            with body g eqs Inr v None show ?thesis by (auto intro: short)
          next
            case False
            with body g eqs Inr v None
            have f: "f a userID teamID fn (page + 1) acc1 w2 = Some y" by simp
            from IH[OF f] have "P (page + 1) acc1 w2 y" by simp
            with g Inr v None False show ?thesis by (auto intro: step)
          qed
        qed
      qed
    qed
  qed
  then show ?thesis by simp
qed


lemma pageCalls_append: "pageCalls (xs @ ys) = pageCalls xs @ pageCalls ys"
  by (induction xs rule: pageCalls.induct) auto

lemma pageCalls_visits: "\<forall>e\<in>set vs. isVisited e \<Longrightarrow> pageCalls vs = []"
  by (induction vs rule: pageCalls.induct) auto

lemma visitCategories_trace:
  "visitCategories fn cs acc w = (v, acc1, w2) \<Longrightarrow>
   \<exists>vs. trace w2 = trace w @ vs \<and> st w2 = st w \<and> (\<forall>e\<in>set vs. isVisited e) \<and>
     (v = None \<longrightarrow> (\<forall>e\<in>set vs. \<not> stops e)) \<and>
     (\<forall>err. v = Some err \<longrightarrow> vs \<noteq> [] \<and> (\<forall>e\<in>set (butlast vs). \<not> stops e) \<and>
        (\<exists>c d. last vs = Visited c d err \<and> (d \<or> err \<noteq> None)))"
proof (induction fn cs acc w rule: visitCategories.induct)
  case (1 fn acc w)
  then show ?case by simp
next
  case (2 fn category categories acc w)
  obtain d err a1 where f: "fn category acc = ((d, err), a1)"
    by (cases "fn category acc") auto
  show ?case
  proof (cases "err \<noteq> None \<or> d")
    case True
    with 2(2) f show ?thesis by auto
  next
    case False
    with 2(2) f have r: "visitCategories fn categories a1 (emit (Visited category d err) w)
        = (v, acc1, w2)" by simp
    from 2(1)[OF f[symmetric] refl False r] obtain vs where
      vs: "trace w2 = trace (emit (Visited category d err) w) @ vs" "st w2 = st w"
        "\<forall>e\<in>set vs. isVisited e" "v = None \<longrightarrow> (\<forall>e\<in>set vs. \<not> stops e)"
        "\<forall>err. v = Some err \<longrightarrow> vs \<noteq> [] \<and> (\<forall>e\<in>set (butlast vs). \<not> stops e) \<and>
        (\<exists>c d. last vs = Visited c d err \<and> (d \<or> err \<noteq> None))"
      by auto
    show ?thesis
      apply (rule exI[of _ "Visited category d err # vs"])
      using vs False by auto
  qed
qed


lemma store_GetUserCategories_trace:
  "store_GetUserCategories a userID teamID opts w = (res, w1) \<Longrightarrow>
   trace w1 = trace w @ [GetUserCategoriesCall userID teamID opts res]"
  by (auto simp: store_GetUserCategories_def split: prod.splits)

lemma enumInv_err:
  "enumInv userID teamID page
     [GetUserCategoriesCall userID teamID \<lparr>Page = page, PerPage = 50\<rparr> (Inl e)] (Some e)"
  by (simp add: enumInv_def)

lemma enumInv_stop:
  assumes "vs \<noteq> []" "\<forall>e\<in>set vs. isVisited e" "\<forall>e\<in>set (butlast vs). \<not> stops e"
    "last vs = Visited c d err" "d \<or> err \<noteq> None"
  shows "enumInv userID teamID page
     (GetUserCategoriesCall userID teamID \<lparr>Page = page, PerPage = 50\<rparr> (Inr cs) # vs) err"
  using assms by (auto simp: enumInv_def pageCalls_visits)

lemma enumInv_short:
  assumes "\<forall>e\<in>set vs. isVisited e" "\<forall>e\<in>set vs. \<not> stops e" "length cs < 50"
  shows "enumInv userID teamID page
     (GetUserCategoriesCall userID teamID \<lparr>Page = page, PerPage = 50\<rparr> (Inr cs) # vs) None"
proof -
  have b: "\<forall>e\<in>set (butlast vs). \<not> stops e"
    using assms(2) by (auto dest: in_set_butlastD)
  show ?thesis
  proof (cases "vs = []")
    case True
    with assms(3) show ?thesis by (simp add: enumInv_def)
  next
    case False
    then have l: "\<not> stops (last vs)" using assms(2) last_in_set by blast
    have la: "last (GetUserCategoriesCall userID teamID \<lparr>Page = page, PerPage = 50\<rparr>
        (Inr cs) # vs) = last vs" using False by simp
    show ?thesis
      unfolding enumInv_def la
      apply (intro conjI)
      subgoal by simp
      subgoal by simp
      subgoal using assms(1) by auto
      subgoal using assms(1) by (simp add: pageCalls_visits)
      subgoal using b False by simp
      subgoal using assms(1) by (simp add: pageCalls_visits)
      subgoal using l by auto
      subgoal using l by auto
      subgoal using assms(1,3) by (simp add: pageCalls_visits)
      done
  qed
qed

lemma enumInv_step:
  assumes "\<forall>e\<in>set vs. isVisited e" "\<forall>e\<in>set vs. \<not> stops e" "\<not> length cs < 50"
    and inv: "enumInv userID teamID (page + 1) evs r"
  shows "enumInv userID teamID page
     (GetUserCategoriesCall userID teamID \<lparr>Page = page, PerPage = 50\<rparr> (Inr cs) # vs @ evs) r"
proof -
  let ?call = "GetUserCategoriesCall userID teamID \<lparr>Page = page, PerPage = 50\<rparr> (Inr cs)"
  let ?x = "(userID, teamID, \<lparr>Page = page, PerPage = 50\<rparr>, Inr cs :: error + Category list)"
  from inv have ne: "evs \<noteq> []" "pageCalls evs \<noteq> []" by (simp_all add: enumInv_def)
  have pc: "pageCalls (?call # vs @ evs) = ?x # pageCalls evs"
    using assms(1) by (simp add: pageCalls_append pageCalls_visits)
  have la: "last (?call # vs @ evs) = last evs" using ne by simp
  have bl: "butlast (?call # vs @ evs) = ?call # vs @ butlast evs"
    using ne by (simp add: butlast_append)
  have lp: "last (?x # pageCalls evs) = last (pageCalls evs)" using ne by simp
  have bp: "butlast (?x # pageCalls evs) = ?x # butlast (pageCalls evs)" using ne by simp
  have m: "map (\<lambda>(u, t, opts, res). (u, t, opts)) (?x # pageCalls evs) =
       map (\<lambda>i. (userID, teamID, \<lparr>Page = page + of_nat i, PerPage = 50\<rparr>))
         [0..<length (?x # pageCalls evs)]"
  proof -
    from inv have "map (\<lambda>(u, t, opts, res). (u, t, opts)) (pageCalls evs) =
       map (\<lambda>i. (userID, teamID, \<lparr>Page = page + 1 + of_nat i, PerPage = 50\<rparr>))
         [0..<length (pageCalls evs)]" by (simp add: enumInv_def)
    then show ?thesis
      by (simp add: map_upt_Suc add.assoc del: upt_Suc)
  qed
  show ?thesis
    unfolding enumInv_def pc la bl lp bp[symmetric]
    apply (intro conjI)
    subgoal by simp
    subgoal by simp
    subgoal using inv assms(1) unfolding enumInv_def by auto
    subgoal using m by simp
    subgoal using inv assms(2) unfolding enumInv_def by auto
    subgoal using inv assms(3) unfolding enumInv_def bp by auto
    subgoal using inv unfolding enumInv_def by blast
    subgoal using inv unfolding enumInv_def by blast
    subgoal using inv unfolding enumInv_def by blast
    done
qed

lemma ForEachUserCategory_from_enumInv:
  assumes "ForEachUserCategory_from a userID teamID fn page acc w = Some y"
  shows "\<exists>evs. trace (snd (snd y)) = trace w @ evs \<and> enumInv userID teamID page evs (fst y)"
  using assms
proof (induction rule: ForEachUserCategory_from_rule)
  case (err page acc w e w1)
  then show ?case
    by (auto simp: perPage_def dest!: store_GetUserCategories_trace intro: enumInv_err)
next
  case (stop page acc w cs w1 e acc1 w2)
  from visitCategories_trace[OF stop(2)] stop(1) show ?case
    by (auto simp: perPage_def dest!: store_GetUserCategories_trace intro!: enumInv_stop)
next
  case (short page acc w cs w1 acc1 w2)
  from visitCategories_trace[OF short(2)] short(1,3) show ?case
    by (auto simp: perPage_def dest!: store_GetUserCategories_trace intro!: enumInv_short)
next
  case (step page acc w cs w1 acc1 w2 y)
  from visitCategories_trace[OF step(2)] step(1,3,4) show ?case
    by (auto simp: perPage_def dest!: store_GetUserCategories_trace intro!: enumInv_step)
qed

lemma listed_append: "listed (xs @ ys) = listed xs @ listed ys"
  by (induction xs rule: listed.induct) auto

lemma listed_visits: "\<forall>e\<in>set vs. isVisited e \<Longrightarrow> listed vs = []"
  by (induction vs rule: listed.induct) auto

lemma visitCategories_verify_fn:
  "visitCategories verify_fn cs acc w = (v, acc1, w2) \<Longrightarrow> v = None \<and> acc1 = acc \<union> ID ` set cs"
  by (induction cs arbitrary: acc w) (auto simp: verify_fn_def)

lemma ForEachUserCategory_from_collects:
  assumes "ForEachUserCategory_from a userID teamID verify_fn page acc w = Some y"
  shows "\<exists>evs. trace (snd (snd y)) = trace w @ evs \<and>
           fst (snd y) = acc \<union> ID ` set (listed evs)"
  using assms
proof (induction rule: ForEachUserCategory_from_rule)
  case (err page acc w e w1)
  then show ?case
    by (auto dest!: store_GetUserCategories_trace)
next
  case (stop page acc w cs w1 e acc1 w2)
  then show ?case
    by (auto dest: visitCategories_verify_fn)
next
  case (short page acc w cs w1 acc1 w2)
  from visitCategories_trace[OF short(2)] visitCategories_verify_fn[OF short(2)] short(1)
  show ?case
    by (auto dest!: store_GetUserCategories_trace simp: listed_visits)
next
  case (step page acc w cs w1 acc1 w2 y)
  from step(4) obtain evs where evs: "trace (snd (snd y)) = trace w2 @ evs"
    "fst (snd y) = acc1 \<union> ID ` set (listed evs)" by blast
  from visitCategories_trace[OF step(2)] obtain vs where
    vs: "trace w2 = trace w1 @ vs" "\<forall>e\<in>set vs. isVisited e" by blast
  from visitCategories_verify_fn[OF step(2)] have a1: "acc1 = acc \<union> ID ` set cs" by simp
  let ?call = "GetUserCategoriesCall userID teamID
      \<lparr>Page = page, PerPage = of_nat perPage\<rparr> (Inr cs)"
  from store_GetUserCategories_trace[OF step(1)] have "trace w1 = trace w @ [?call]" .
  with evs vs a1 have "trace (snd (snd y)) = trace w @ (?call # vs @ evs) \<and>
           fst (snd y) = acc \<union> ID ` set (listed (?call # vs @ evs))"
    by (auto simp: listed_append listed_visits)
  then show ?case by blast
qed

lemma ForEachUserCategory_verify_fn:
  assumes "ForEachUserCategory a userID teamID verify_fn {} w = Some (r, existing, w1)"
  shows "\<exists>evs. trace w1 = trace w @ evs \<and> existing = ID ` set (listed evs) \<and>
     (\<forall>e\<in>set evs.
        isVisited e \<or> (\<exists>opts res. e = GetUserCategoriesCall userID teamID opts res))"
proof -
  from assms have run:
    "ForEachUserCategory_from a userID teamID verify_fn 0 {} w = Some (r, existing, w1)"
    by (simp add: ForEachUserCategory_def)
  from ForEachUserCategory_from_enumInv[OF run] obtain evs where
    evs: "trace w1 = trace w @ evs" "enumInv userID teamID 0 evs r" by auto
  from ForEachUserCategory_from_collects[OF run] obtain evs' where
    evs': "trace w1 = trace w @ evs'" "existing = {} \<union> ID ` set (listed evs')" by auto
  from evs(1) evs'(1) have "evs' = evs" by simp
  with evs evs' show ?thesis
    unfolding enumInv_def by (intro exI[of _ evs]) simp
qed

lemma verifyFound_None_iff:
  "verifyFound existing userID teamID newCategoryOrder = None
     \<longleftrightarrow> set newCategoryOrder \<subseteq> existing"
  by (induction newCategoryOrder) auto

lemma store_ReorderCategories_eq:
  "sReorderCategories (store a) userID teamID order (st w) = (r, s) \<Longrightarrow>
   store_ReorderCategories a userID teamID order w =
     (r, w\<lparr>st := s, trace := trace w @ [ReorderCategoriesCall userID teamID order r]\<rparr>)"
  by (simp add: store_ReorderCategories_def emit_def)

lemma demo_enumeration:
  "\<exists>w1. ForEachUserCategory (demoApp commit) ''u1'' ''t1'' verify_fn {} demoWorld
           = Some (None, {''default'', ''work''}, w1)"
  by (auto simp: ForEachUserCategory_def ForEachUserCategory_from.simps demo_defs verify_fn_def)

lemma demo_card: "card {''default'', ''work''} = 2"
  by simp

lemma accAfter_simps [simp]:
  "accAfter fn [] acc = acc"
  "accAfter fn (c # cs) acc = accAfter fn cs (snd (fn c acc))"
  by (simp_all add: accAfter_def)

lemma accAfter_append: "accAfter fn (xs @ ys) acc = accAfter fn ys (accAfter fn xs acc)"
  by (simp add: accAfter_def)

lemma answer_Cons [simp]:
  "answer fn (c # cs) acc 0 = fst (fn c acc)"
  "answer fn (c # cs) acc (Suc j) = answer fn cs (snd (fn c acc)) j"
  by (simp_all add: answer_def)

lemma visitCategories_goes_on:
  "\<forall>j<length cs. answer fn cs acc j = (False, None) \<Longrightarrow>
   visitCategories fn cs acc w =
     (None, accAfter fn cs acc, w\<lparr>trace := trace w @ map (\<lambda>c. Visited c False None) cs\<rparr>)"
proof (induction cs arbitrary: acc w)
  case Nil
  then show ?case by simp
next
  case (Cons c cs)
  from Cons.prems have h: "fst (fn c acc) = (False, None)" by fastforce
  from Cons.prems have r: "\<forall>j<length cs. answer fn cs (snd (fn c acc)) j = (False, None)"
    by fastforce
  obtain acc1 where f: "fn c acc = ((False, None), acc1)"
    using h by (cases "fn c acc") auto
  from Cons.IH[OF r, of "emit (Visited c False None) w"] f show ?case
    by (simp add: emit_def)
qed

lemma visitCategories_stops_at:
  "i < length cs \<Longrightarrow> \<forall>j<i. answer fn cs acc j = (False, None) \<Longrightarrow>
   answer fn cs acc i = (d, err) \<Longrightarrow> d \<or> err \<noteq> None \<Longrightarrow>
   visitCategories fn cs acc w =
     (Some err, accAfter fn (take (Suc i) cs) acc,
      w\<lparr>trace := trace w @ map (\<lambda>c. Visited c False None) (take i cs) @ [Visited (cs ! i) d err]\<rparr>)"
proof (induction cs arbitrary: acc w i)
  case Nil
  then show ?case by simp
next
  case (Cons c cs)
  show ?case
  proof (cases i)
    case 0
    with Cons.prems obtain acc1 where f: "fn c acc = ((d, err), acc1)"
      by (cases "fn c acc") auto
    with 0 Cons.prems(4) show ?thesis
      by (auto simp: emit_def)
  next
    case (Suc k)
    with Cons.prems have h: "fst (fn c acc) = (False, None)" by fastforce
    then obtain acc1 where f: "fn c acc = ((False, None), acc1)"
      by (cases "fn c acc") auto
    from Suc Cons.prems have k: "k < length cs"
      and r: "\<forall>j<k. answer fn cs (snd (fn c acc)) j = (False, None)"
      and a: "answer fn cs (snd (fn c acc)) k = (d, err)"
      by fastforce+
    from Cons.IH[OF k r a Cons.prems(4), of "emit (Visited c False None) w"] f Suc
    show ?thesis
      by (simp add: emit_def)
  qed
qed

lemma store_GetUserCategories_eq:
  "sGetUserCategories (store a) userID teamID opts (st w) = (res, s1) \<Longrightarrow>
   store_GetUserCategories a userID teamID opts w =
     (res, w\<lparr>st := s1, trace := trace w @ [GetUserCategoriesCall userID teamID opts res]\<rparr>)"
  by (simp add: store_GetUserCategories_def emit_def)

lemma ForEachUserCategory_from_error:
  assumes "sGetUserCategories (store a) userID teamID \<lparr>Page = page, PerPage = 50\<rparr> (st w)
             = (Inl e, s1)"
  shows "ForEachUserCategory_from a userID teamID fn page acc w =
     Some (Some e, acc,
           w\<lparr>st := s1,
             trace := trace w @
               [GetUserCategoriesCall userID teamID \<lparr>Page = page, PerPage = 50\<rparr> (Inl e)]\<rparr>)"
  by (subst ForEachUserCategory_from.simps)
     (simp add: perPage_def store_GetUserCategories_eq[OF assms])

lemma ForEachUserCategory_from_stop:
  assumes "sGetUserCategories (store a) userID teamID \<lparr>Page = page, PerPage = 50\<rparr> (st w)
             = (Inr cs, s1)"
    and "i < length cs" and "\<forall>j<i. answer fn cs acc j = (False, None)"
    and "answer fn cs acc i = (d, err)" and "d \<or> err \<noteq> None"
  shows "ForEachUserCategory_from a userID teamID fn page acc w =
     Some (err, accAfter fn (take (Suc i) cs) acc,
           w\<lparr>st := s1,
             trace := trace w @
               GetUserCategoriesCall userID teamID \<lparr>Page = page, PerPage = 50\<rparr> (Inr cs) #
               map (\<lambda>c. Visited c False None) (take i cs) @ [Visited (cs ! i) d err]\<rparr>)"
  by (subst ForEachUserCategory_from.simps)
     (simp add: perPage_def store_GetUserCategories_eq[OF assms(1)]
        visitCategories_stops_at[OF assms(2-5)])

lemma ForEachUserCategory_from_short:
  assumes "sGetUserCategories (store a) userID teamID \<lparr>Page = page, PerPage = 50\<rparr> (st w)
             = (Inr cs, s1)"
    and "\<forall>j<length cs. answer fn cs acc j = (False, None)" and "length cs < 50"
  shows "ForEachUserCategory_from a userID teamID fn page acc w =
     Some (None, accAfter fn cs acc,
           w\<lparr>st := s1,
             trace := trace w @
               GetUserCategoriesCall userID teamID \<lparr>Page = page, PerPage = 50\<rparr> (Inr cs) #
               map (\<lambda>c. Visited c False None) cs\<rparr>)"
  using assms(3)
  by (subst ForEachUserCategory_from.simps)
     (simp add: perPage_def store_GetUserCategories_eq[OF assms(1)]
        visitCategories_goes_on[OF assms(2)])

lemma ForEachUserCategory_from_next:
  assumes "sGetUserCategories (store a) userID teamID \<lparr>Page = page, PerPage = 50\<rparr> (st w)
             = (Inr cs, s1)"
    and "\<forall>j<length cs. answer fn cs acc j = (False, None)" and "\<not> length cs < 50"
  shows "ForEachUserCategory_from a userID teamID fn page acc w =
     ForEachUserCategory_from a userID teamID fn (page + 1) (accAfter fn cs acc)
       (w\<lparr>st := s1,
          trace := trace w @
            GetUserCategoriesCall userID teamID \<lparr>Page = page, PerPage = 50\<rparr> (Inr cs) #
            map (\<lambda>c. Visited c False None) cs\<rparr>)"
  using assms(3)
  by (subst ForEachUserCategory_from.simps)
     (simp add: perPage_def store_GetUserCategories_eq[OF assms(1)]
        visitCategories_goes_on[OF assms(2)])

lemma answer_append_left:
  "k < length cs \<Longrightarrow> answer fn (cs @ ys) acc k = answer fn cs acc k"
  by (simp add: answer_def nth_append)

lemma answer_append_right:
  "answer fn (cs @ ys) acc (length cs + k) = answer fn ys (accAfter fn cs acc) k"
  by (simp add: answer_def nth_append accAfter_append)

lemma visitCategories_first_stop:
  "(\<forall>j<length cs. answer fn cs acc j = (False, None)) \<or>
   (\<exists>i<length cs. (\<forall>j<i. answer fn cs acc j = (False, None)) \<and>
        answer fn cs acc i \<noteq> (False, None))"
proof (cases "\<forall>j<length cs. answer fn cs acc j = (False, None)")
  case True
  then show ?thesis by simp
next
  case False
  define P where "P i \<longleftrightarrow> i < length cs \<and> answer fn cs acc i \<noteq> (False, None)" for i
  from False have ex: "\<exists>i. P i" by (auto simp: P_def)
  define i where "i = (LEAST i. P i)"
  from ex have Pi: "P i" unfolding i_def by (rule LeastI_ex)
  have "\<not> P j" if "j < i" for j
    using that unfolding i_def by (rule not_less_Least)
  with Pi have "\<forall>j<i. answer fn cs acc j = (False, None)"
    by (auto simp: P_def)
  with Pi show ?thesis by (auto simp: P_def)
qed

lemma visitCategories_exact:
  assumes "visitCategories fn cs acc w = (v, acc1, w2)"
  shows "(v = None \<and> (\<forall>j<length cs. answer fn cs acc j = (False, None)) \<and>
          acc1 = accAfter fn cs acc \<and>
          w2 = w\<lparr>trace := trace w @ map (\<lambda>c. Visited c False None) cs\<rparr>) \<or>
         (\<exists>i d err. v = Some err \<and> i < length cs \<and>
          (\<forall>j<i. answer fn cs acc j = (False, None)) \<and>
          answer fn cs acc i = (d, err) \<and> (d \<or> err \<noteq> None) \<and>
          acc1 = accAfter fn (take (Suc i) cs) acc \<and>
          w2 = w\<lparr>trace := trace w @ map (\<lambda>c. Visited c False None) (take i cs) @
                  [Visited (cs ! i) d err]\<rparr>)"
proof -
  from visitCategories_first_stop[of cs fn acc] show ?thesis
  proof
    assume all: "\<forall>j<length cs. answer fn cs acc j = (False, None)"
    from visitCategories_goes_on[OF all, of w] assms all show ?thesis by simp
  next
    assume "\<exists>i<length cs. (\<forall>j<i. answer fn cs acc j = (False, None)) \<and>
        answer fn cs acc i \<noteq> (False, None)"
    then obtain i where i: "i < length cs" "\<forall>j<i. answer fn cs acc j = (False, None)"
      "answer fn cs acc i \<noteq> (False, None)" by blast
    obtain d err where a: "answer fn cs acc i = (d, err)"
      by (cases "answer fn cs acc i") auto
    with i(3) have st: "d \<or> err \<noteq> None" by auto
    from visitCategories_stops_at[OF i(1,2) a st, of w] assms i a st
    show ?thesis by auto
  qed
qed

lemma visits_append: "visits (xs @ ys) = visits xs @ visits ys"
  by (induction xs rule: visits.induct) auto

lemma visits_map_Visited: "visits (map (\<lambda>c. Visited c d err) cs) = map (\<lambda>c. (c, d, err)) cs"
  by (induction cs) auto

lemma listed_map_Visited: "listed (map (\<lambda>c. Visited c d err) cs) = []"
  by (induction cs) auto

lemma visitsInv_err:
  "visitsInv fn acc [GetUserCategoriesCall u t opts (Inl e)] acc"
  by (simp add: visitsInv_def)

lemma visitsInv_stop:
  assumes "i < length cs" "\<forall>j<i. answer fn cs acc j = (False, None)"
    "answer fn cs acc i = (d, err)" "d \<or> err \<noteq> None"
  shows "visitsInv fn acc
     (GetUserCategoriesCall u t opts (Inr cs) #
        map (\<lambda>c. Visited c False None) (take i cs) @ [Visited (cs ! i) d err])
     (accAfter fn (take (Suc i) cs) acc)"
proof -
  let ?evs = "GetUserCategoriesCall u t opts (Inr cs) #
        map (\<lambda>c. Visited c False None) (take i cs) @ [Visited (cs ! i) d err]"
  have v: "visits ?evs = map (\<lambda>c. (c, False, None)) (take i cs) @ [(cs ! i, d, err)]"
    by (simp add: visits_append visits_map_Visited)
  have l: "listed ?evs = cs"
    by (simp add: listed_append listed_map_Visited)
  have len: "length (visits ?evs) = Suc i" using assms(1) by (simp add: visits_append visits_map_Visited)
  have m: "map fst (visits ?evs) = take (Suc i) cs"
    using assms(1) by (simp add: visits_append visits_map_Visited take_Suc_conv_app_nth comp_def)
  have a: "\<forall>k<length (visits ?evs). snd (visits ?evs ! k) = answer fn (listed ?evs) acc k"
  proof (intro allI impI)
    fix k assume "k < length (visits ?evs)"
    with len have "k < i \<or> k = i" by auto
    then show "snd (visits ?evs ! k) = answer fn (listed ?evs) acc k"
    proof
      assume "k < i"
      with assms(1,2) show ?thesis by (simp add: visits_append visits_map_Visited listed_append listed_map_Visited nth_append)
    next
      assume "k = i"
      with assms(1,3) show ?thesis by (simp add: visits_append visits_map_Visited listed_append listed_map_Visited nth_append)
    qed
  qed
  show ?thesis
    unfolding visitsInv_def
    apply (intro conjI)
    subgoal using m len by (simp add: listed_append listed_map_Visited)
    subgoal by (rule a)
    subgoal using m by simp
    subgoal using assms by simp
    done
qed

lemma visitsInv_short:
  assumes "\<forall>j<length cs. answer fn cs acc j = (False, None)"
  shows "visitsInv fn acc
     (GetUserCategoriesCall u t opts (Inr cs) # map (\<lambda>c. Visited c False None) cs)
     (accAfter fn cs acc)"
  unfolding visitsInv_def using assms
  by (simp add: visits_map_Visited listed_map_Visited comp_def)

lemma visitsInv_step:
  assumes all: "\<forall>j<length cs. answer fn cs acc j = (False, None)"
    and inv: "visitsInv fn (accAfter fn cs acc) evs acc'" and ne: "evs \<noteq> []"
  shows "visitsInv fn acc
     (GetUserCategoriesCall u t opts (Inr cs) # map (\<lambda>c. Visited c False None) cs @ evs) acc'"
proof -
  let ?evs = "GetUserCategoriesCall u t opts (Inr cs) # map (\<lambda>c. Visited c False None) cs @ evs"
  have v: "visits ?evs = map (\<lambda>c. (c, False, None)) cs @ visits evs"
    by (simp add: visits_append visits_map_Visited)
  have l: "listed ?evs = cs @ listed evs"
    by (simp add: listed_append listed_map_Visited)
  have la: "last ?evs = last evs" using ne by simp
  from inv have i1: "map fst (visits evs) = take (length (visits evs)) (listed evs)"
    and i2: "\<forall>k<length (visits evs).
        snd (visits evs ! k) = answer fn (listed evs) (accAfter fn cs acc) k"
    and i3: "acc' = accAfter fn (map fst (visits evs)) (accAfter fn cs acc)"
    and i4: "\<not> stops (last evs) \<longrightarrow> length (visits evs) = length (listed evs)"
    by (simp_all add: visitsInv_def)
  have a: "\<forall>k<length (visits ?evs). snd (visits ?evs ! k) = answer fn (listed ?evs) acc k"
  proof (intro allI impI)
    fix k assume k: "k < length (visits ?evs)"
    show "snd (visits ?evs ! k) = answer fn (listed ?evs) acc k"
    proof (cases "k < length cs")
      case True
      with all show ?thesis
        unfolding v l by (simp add: nth_append answer_append_left)
    next
      case False
      then obtain k' where k': "k = length cs + k'" by (metis le_Suc_ex not_less)
      with k have "k' < length (visits evs)" unfolding v by simp
      with i2 have "snd (visits evs ! k') = answer fn (listed evs) (accAfter fn cs acc) k'"
        by blast
      then show ?thesis
        unfolding v l k' by (simp add: nth_append answer_append_right)
    qed
  qed
  show ?thesis
    unfolding visitsInv_def la
    apply (intro conjI)
    subgoal unfolding v l using i1 by (simp add: comp_def)
    subgoal by (rule a)
    subgoal unfolding v using i3 by (simp add: comp_def accAfter_append)
    subgoal unfolding v l using i4 by simp
    done
qed

lemma ForEachUserCategory_from_visitsInv:
  assumes "ForEachUserCategory_from a userID teamID fn page acc w = Some y"
  shows "\<exists>evs. trace (snd (snd y)) = trace w @ evs \<and> evs \<noteq> [] \<and>
           visitsInv fn acc evs (fst (snd y))"
  using assms
proof (induction rule: ForEachUserCategory_from_rule)
  case (err page acc w e w1)
  from store_GetUserCategories_trace[OF err] show ?case
    by (auto intro: visitsInv_err)
next
  case (stop page acc w cs w1 e acc1 w2)
  from visitCategories_exact[OF stop(2)] obtain i d err where
    x: "i < length cs" "\<forall>j<i. answer fn cs acc j = (False, None)"
      "answer fn cs acc i = (d, err)" "d \<or> err \<noteq> None"
      "acc1 = accAfter fn (take (Suc i) cs) acc"
      "w2 = w1\<lparr>trace := trace w1 @ map (\<lambda>c. Visited c False None) (take i cs) @
                  [Visited (cs ! i) d err]\<rparr>"
    by auto
  from store_GetUserCategories_trace[OF stop(1)] x(5,6) visitsInv_stop[OF x(1-4)]
  show ?case by auto
next
  case (short page acc w cs w1 acc1 w2)
  from visitCategories_exact[OF short(2)] have
    x: "\<forall>j<length cs. answer fn cs acc j = (False, None)" "acc1 = accAfter fn cs acc"
      "w2 = w1\<lparr>trace := trace w1 @ map (\<lambda>c. Visited c False None) cs\<rparr>"
    by auto
  from store_GetUserCategories_trace[OF short(1)] x(2,3) visitsInv_short[OF x(1)]
  show ?case by auto
next
  case (step page acc w cs w1 acc1 w2 y)
  from visitCategories_exact[OF step(2)] have
    x: "\<forall>j<length cs. answer fn cs acc j = (False, None)" "acc1 = accAfter fn cs acc"
      "w2 = w1\<lparr>trace := trace w1 @ map (\<lambda>c. Visited c False None) cs\<rparr>"
    by auto
  from step(4) obtain evs where evs: "trace (snd (snd y)) = trace w2 @ evs" "evs \<noteq> []"
    "visitsInv fn acc1 evs (fst (snd y))" by blast
  let ?call = "GetUserCategoriesCall userID teamID
      \<lparr>Page = page, PerPage = of_nat perPage\<rparr> (Inr cs)"
  note inv = visitsInv_step[OF x(1) evs(3)[unfolded x(2)] evs(2)]
  from store_GetUserCategories_trace[OF step(1)] evs(1) x(3)
  have "trace (snd (snd y)) = trace w @ (?call # map (\<lambda>c. Visited c False None) cs @ evs)"
    by simp
  with inv show ?case by blast
qed

lemma accAfter_stopAt: "accAfter (stopAt x) cs n = n + length cs"
  by (induction cs arbitrary: n) (simp_all add: stopAt_def)

lemma answer_stopAt: "i < length cs \<Longrightarrow> answer (stopAt x) cs n i = (ID (cs ! i) = x, None)"
  by (simp add: answer_def stopAt_def)

text \<open>
  C9. A run of \<open>ForEachUserCategory\<close> that returns has asked the store for the pages
  0, 1, 2, ... of the scope in this order (the request number \<open>i\<close> carries the page
  counter after \<open>i\<close> increments), always with \<open>PerPage = 50\<close>, and has done nothing
  else but call the visitor. A store error and a visitor's \<open>done\<close> or error occur
  only as the last event, so the enumeration ends at once, and the result is then the
  store's error, or the visitor's. Every page but the last requested was a full page;
  when no such event ends the run, the last page had fewer than 50 items and the result
  is \<open>nil\<close>. The visits are the visitor's calls on the listed categories, in order,
  each with the answer the visitor gave, and \<open>acc'\<close> is what the visitor has captured
  after them.

  The run does return, from any page and in any state: when the store answers the page
  with an error, the result is this error and the request is the last event; when the
  visitor, after going on for the items before, answers \<open>done\<close> or an error on an
  item, the result is the visitor's error (\<open>nil\<close> for \<open>done\<close> alone) and this visit
  is the last event; when the visitor goes on for every item of a page of fewer than
  50, the result is \<open>nil\<close>. After a page of 50 or more on which the visitor goes on
  for every item, the run is the run from the next page.
\<close>

theorem ForEachUserCategory_pages:
  "(\<forall>r acc' w'. ForEachUserCategory (a :: 's App) userID teamID fn acc w = Some (r, acc', w') \<longrightarrow>
      (\<exists>evs. trace w' = trace w @ evs \<and> pageCalls evs \<noteq> [] \<and>
         map (\<lambda>(u, t, opts, res). (u, t, opts)) (pageCalls evs) =
           map (\<lambda>i. (userID, teamID, \<lparr>Page = of_nat i, PerPage = 50\<rparr>))
             [0..<length (pageCalls evs)] \<and>
         (\<forall>e\<in>set evs.
            isVisited e \<or> (\<exists>opts res. e = GetUserCategoriesCall userID teamID opts res)) \<and>
         (\<forall>e\<in>set (butlast evs). \<not> stops e) \<and>
         (\<forall>x\<in>set (butlast (pageCalls evs)).
            \<exists>cs. snd (snd (snd x)) = Inr cs \<and> 50 \<le> length cs) \<and>
         (\<forall>u t opts e. last evs = GetUserCategoriesCall u t opts (Inl e) \<longrightarrow> r = Some e) \<and>
         (\<forall>c d err. last evs = Visited c d err \<and> (d \<or> err \<noteq> None) \<longrightarrow> r = err) \<and>
         (\<not> stops (last evs) \<longrightarrow>
            r = None \<and>
            (\<exists>u t opts cs. last (pageCalls evs) = (u, t, opts, Inr cs) \<and> length cs < 50)) \<and>
         map fst (visits evs) = take (length (visits evs)) (listed evs) \<and>
         (\<forall>k<length (visits evs). snd (visits evs ! k) = answer fn (listed evs) acc k) \<and>
         acc' = accAfter fn (map fst (visits evs)) acc \<and>
         (\<not> stops (last evs) \<longrightarrow> length (visits evs) = length (listed evs))))
   \<and> ForEachUserCategory a userID teamID fn acc w =
       ForEachUserCategory_from a userID teamID fn 0 acc w
   \<and> (\<forall>page acc0 w0 e s1.
        sGetUserCategories (store a) userID teamID \<lparr>Page = page, PerPage = 50\<rparr> (st w0)
          = (Inl e, s1) \<longrightarrow>
        ForEachUserCategory_from a userID teamID fn page acc0 w0 =
          Some (Some e, acc0,
                w0\<lparr>st := s1,
                   trace := trace w0 @
                     [GetUserCategoriesCall userID teamID \<lparr>Page = page, PerPage = 50\<rparr>
                        (Inl e)]\<rparr>))
   \<and> (\<forall>page acc0 w0 cs s1 i d err.
        sGetUserCategories (store a) userID teamID \<lparr>Page = page, PerPage = 50\<rparr> (st w0)
          = (Inr cs, s1) \<longrightarrow>
        i < length cs \<longrightarrow> (\<forall>j<i. answer fn cs acc0 j = (False, None)) \<longrightarrow>
        answer fn cs acc0 i = (d, err) \<longrightarrow> d \<or> err \<noteq> None \<longrightarrow>
        ForEachUserCategory_from a userID teamID fn page acc0 w0 =
          Some (err, accAfter fn (take (Suc i) cs) acc0,
                w0\<lparr>st := s1,
                   trace := trace w0 @
                     GetUserCategoriesCall userID teamID \<lparr>Page = page, PerPage = 50\<rparr>
                       (Inr cs) #
                     map (\<lambda>c. Visited c False None) (take i cs) @ [Visited (cs ! i) d err]\<rparr>))
   \<and> (\<forall>page acc0 w0 cs s1.
        sGetUserCategories (store a) userID teamID \<lparr>Page = page, PerPage = 50\<rparr> (st w0)
          = (Inr cs, s1) \<longrightarrow>
        (\<forall>j<length cs. answer fn cs acc0 j = (False, None)) \<longrightarrow> length cs < 50 \<longrightarrow>
        ForEachUserCategory_from a userID teamID fn page acc0 w0 =
          Some (None, accAfter fn cs acc0,
                w0\<lparr>st := s1,
                   trace := trace w0 @
                     GetUserCategoriesCall userID teamID \<lparr>Page = page, PerPage = 50\<rparr>
                       (Inr cs) #
                     map (\<lambda>c. Visited c False None) cs\<rparr>))
   \<and> (\<forall>page acc0 w0 cs s1.
        sGetUserCategories (store a) userID teamID \<lparr>Page = page, PerPage = 50\<rparr> (st w0)
          = (Inr cs, s1) \<longrightarrow>
        (\<forall>j<length cs. answer fn cs acc0 j = (False, None)) \<longrightarrow> \<not> length cs < 50 \<longrightarrow>
        ForEachUserCategory_from a userID teamID fn page acc0 w0 =
          ForEachUserCategory_from a userID teamID fn (page + 1) (accAfter fn cs acc0)
            (w0\<lparr>st := s1,
                trace := trace w0 @
                  GetUserCategoriesCall userID teamID \<lparr>Page = page, PerPage = 50\<rparr>
                    (Inr cs) #
                  map (\<lambda>c. Visited c False None) cs\<rparr>))"
proof (intro conjI allI impI)
  fix r acc' w'
  assume "ForEachUserCategory a userID teamID fn acc w = Some (r, acc', w')"
  then have run: "ForEachUserCategory_from a userID teamID fn 0 acc w = Some (r, acc', w')"
    by (simp add: ForEachUserCategory_def)
  from ForEachUserCategory_from_enumInv[OF run] obtain evs where
    evs: "trace w' = trace w @ evs" "enumInv userID teamID 0 evs r" by auto
  from ForEachUserCategory_from_visitsInv[OF run] obtain evs' where
    evs': "trace w' = trace w @ evs'" "visitsInv fn acc evs' acc'" by auto
  from evs(1) evs'(1) have "evs' = evs" by simp
  with evs'(2) have v: "visitsInv fn acc evs acc'" by simp
  from evs v show "\<exists>evs. trace w' = trace w @ evs \<and> pageCalls evs \<noteq> [] \<and>
         map (\<lambda>(u, t, opts, res). (u, t, opts)) (pageCalls evs) =
           map (\<lambda>i. (userID, teamID, \<lparr>Page = of_nat i, PerPage = 50\<rparr>))
             [0..<length (pageCalls evs)] \<and>
         (\<forall>e\<in>set evs.
            isVisited e \<or> (\<exists>opts res. e = GetUserCategoriesCall userID teamID opts res)) \<and>
         (\<forall>e\<in>set (butlast evs). \<not> stops e) \<and>
         (\<forall>x\<in>set (butlast (pageCalls evs)).
            \<exists>cs. snd (snd (snd x)) = Inr cs \<and> 50 \<le> length cs) \<and>
         (\<forall>u t opts e. last evs = GetUserCategoriesCall u t opts (Inl e) \<longrightarrow> r = Some e) \<and>
         (\<forall>c d err. last evs = Visited c d err \<and> (d \<or> err \<noteq> None) \<longrightarrow> r = err) \<and>
         (\<not> stops (last evs) \<longrightarrow>
            r = None \<and>
            (\<exists>u t opts cs. last (pageCalls evs) = (u, t, opts, Inr cs) \<and> length cs < 50)) \<and>
         map fst (visits evs) = take (length (visits evs)) (listed evs) \<and>
         (\<forall>k<length (visits evs). snd (visits evs ! k) = answer fn (listed evs) acc k) \<and>
         acc' = accAfter fn (map fst (visits evs)) acc \<and>
         (\<not> stops (last evs) \<longrightarrow> length (visits evs) = length (listed evs))"
    unfolding enumInv_def visitsInv_def add_0 by blast
next
  show "ForEachUserCategory a userID teamID fn acc w =
       ForEachUserCategory_from a userID teamID fn 0 acc w"
    by (simp add: ForEachUserCategory_def)
next
  fix page acc0 and w0 :: "'s world" and e s1
  assume "sGetUserCategories (store a) userID teamID \<lparr>Page = page, PerPage = 50\<rparr> (st w0)
          = (Inl e, s1)"
  then show "ForEachUserCategory_from a userID teamID fn page acc0 w0 =
          Some (Some e, acc0,
                w0\<lparr>st := s1,
                   trace := trace w0 @
                     [GetUserCategoriesCall userID teamID \<lparr>Page = page, PerPage = 50\<rparr>
                        (Inl e)]\<rparr>)"
    by (rule ForEachUserCategory_from_error)
next
  fix page acc0 and w0 :: "'s world" and cs s1 i d err
  assume "sGetUserCategories (store a) userID teamID \<lparr>Page = page, PerPage = 50\<rparr> (st w0)
          = (Inr cs, s1)" "i < length cs" "\<forall>j<i. answer fn cs acc0 j = (False, None)"
        "answer fn cs acc0 i = (d, err)" "d \<or> err \<noteq> None"
  then show "ForEachUserCategory_from a userID teamID fn page acc0 w0 =
          Some (err, accAfter fn (take (Suc i) cs) acc0,
                w0\<lparr>st := s1,
                   trace := trace w0 @
                     GetUserCategoriesCall userID teamID \<lparr>Page = page, PerPage = 50\<rparr>
                       (Inr cs) #
                     map (\<lambda>c. Visited c False None) (take i cs) @ [Visited (cs ! i) d err]\<rparr>)"
    by (rule ForEachUserCategory_from_stop)
next
  fix page acc0 and w0 :: "'s world" and cs s1
  assume "sGetUserCategories (store a) userID teamID \<lparr>Page = page, PerPage = 50\<rparr> (st w0)
          = (Inr cs, s1)" "\<forall>j<length cs. answer fn cs acc0 j = (False, None)" "length cs < 50"
  then show "ForEachUserCategory_from a userID teamID fn page acc0 w0 =
          Some (None, accAfter fn cs acc0,
                w0\<lparr>st := s1,
                   trace := trace w0 @
                     GetUserCategoriesCall userID teamID \<lparr>Page = page, PerPage = 50\<rparr>
                       (Inr cs) #
                     map (\<lambda>c. Visited c False None) cs\<rparr>)"
    by (rule ForEachUserCategory_from_short)
next
  fix page acc0 and w0 :: "'s world" and cs s1
  assume "sGetUserCategories (store a) userID teamID \<lparr>Page = page, PerPage = 50\<rparr> (st w0)
          = (Inr cs, s1)" "\<forall>j<length cs. answer fn cs acc0 j = (False, None)"
        "\<not> length cs < 50"
  then show "ForEachUserCategory_from a userID teamID fn page acc0 w0 =
          ForEachUserCategory_from a userID teamID fn (page + 1) (accAfter fn cs acc0)
            (w0\<lparr>st := s1,
                trace := trace w0 @
                  GetUserCategoriesCall userID teamID \<lparr>Page = page, PerPage = 50\<rparr>
                    (Inr cs) #
                  map (\<lambda>c. Visited c False None) cs\<rparr>)"
    by (rule ForEachUserCategory_from_next)
qed

theorem ForEachUserCategory_pages_witness:
  "ForEachUserCategory (pagedApp (Inr secondPage)) ''u1'' ''t1'' (stopAt ''old'') 0 demoWorld =
     Some (None, 52,
       demoWorld\<lparr>trace :=
         GetUserCategoriesCall ''u1'' ''t1'' \<lparr>Page = 0, PerPage = 50\<rparr>
           (Inr (replicate 50 (asCategory rowWork))) #
         replicate 50 (Visited (asCategory rowWork) False None) @
         [GetUserCategoriesCall ''u1'' ''t1'' \<lparr>Page = 1, PerPage = 50\<rparr> (Inr secondPage),
          Visited (asCategory rowDefault) False None,
          Visited (asCategory rowOld) True None]\<rparr>)
   \<and> ForEachUserCategory (pagedApp (Inl (StoreError ''store is down''))) ''u1'' ''t1''
       (stopAt ''old'') 0 demoWorld =
     Some (Some (StoreError ''store is down''), 50,
       demoWorld\<lparr>trace :=
         GetUserCategoriesCall ''u1'' ''t1'' \<lparr>Page = 0, PerPage = 50\<rparr>
           (Inr (replicate 50 (asCategory rowWork))) #
         replicate 50 (Visited (asCategory rowWork) False None) @
         [GetUserCategoriesCall ''u1'' ''t1'' \<lparr>Page = 1, PerPage = 50\<rparr>
            (Inl (StoreError ''store is down''))]\<rparr>)
   \<and> (\<exists>r acc' w' evs.
         ForEachUserCategory (pagedApp (Inr secondPage)) ''u1'' ''t1'' (stopAt ''old'') 0 demoWorld
           = Some (r, acc', w')
       \<and> trace w' = trace demoWorld @ evs \<and> pageCalls evs \<noteq> []
       \<and> (\<forall>e\<in>set (butlast evs). \<not> stops e)
       \<and> map fst (visits evs) = take (length (visits evs)) (listed evs)
       \<and> acc' = accAfter (stopAt ''old'') (map fst (visits evs)) 0)"
proof -
  let ?cw = "asCategory rowWork"
  let ?fn = "stopAt ''old''"
  let ?first = "replicate 50 ?cw"
  have idw: "ID ?cw \<noteq> ''old''" and idd: "ID (asCategory rowDefault) \<noteq> ''old''"
    and ido: "ID (asCategory rowOld) = ''old''"
    by (simp_all add: asCategory_def rowWork_def rowDefault_def rowOld_def)
  have t0: "trace demoWorld = []" by (simp add: demoWorld_def)
  have all0: "\<forall>j<length ?first. answer ?fn ?first 0 j = (False, None)"
    using idw by (simp add: answer_stopAt)
  have full: "\<not> length ?first < 50" by simp
  have acc1: "accAfter ?fn ?first 0 = 50" by (simp add: accAfter_stopAt)
  let ?w1 = "demoWorld\<lparr>st := st demoWorld,
      trace := trace demoWorld @
        GetUserCategoriesCall ''u1'' ''t1'' \<lparr>Page = 0, PerPage = 50\<rparr> (Inr ?first) #
        map (\<lambda>c. Visited c False None) ?first\<rparr>"
  \<comment> \<open>first run: the visitor answers done on the second item of the second page\<close>
  let ?a = "pagedApp (Inr secondPage)"
  note T = ForEachUserCategory_pages [of ?a "''u1''" "''t1''" ?fn 0 demoWorld]
  note start = T[THEN conjunct2, THEN conjunct1]
  note stop = T[THEN conjunct2, THEN conjunct2, THEN conjunct2, THEN conjunct1, rule_format]
  note next_page = T[THEN conjunct2, THEN conjunct2, THEN conjunct2, THEN conjunct2,
      THEN conjunct2, rule_format]
  have p0: "sGetUserCategories (store ?a) ''u1'' ''t1'' \<lparr>Page = 0, PerPage = 50\<rparr> (st demoWorld)
      = (Inr ?first, st demoWorld)"
    by (simp add: pagedApp_def)
  have p1: "sGetUserCategories (store ?a) ''u1'' ''t1'' \<lparr>Page = 0 + 1, PerPage = 50\<rparr> (st ?w1)
      = (Inr secondPage, st demoWorld)"
    by (simp add: pagedApp_def)
  have i1: "(1::nat) < length secondPage" by (simp add: secondPage_def)
  have before: "\<forall>j<1. answer ?fn secondPage (accAfter ?fn ?first 0) j = (False, None)"
    using idd by (simp add: stopAt_def secondPage_def)
  have at: "answer ?fn secondPage (accAfter ?fn ?first 0) 1 = (True, None)"
    using ido by (simp add: answer_def stopAt_def secondPage_def)
  have st: "True \<or> (None :: error option) \<noteq> None" by simp
  have "ForEachUserCategory ?a ''u1'' ''t1'' ?fn 0 demoWorld =
      ForEachUserCategory_from ?a ''u1'' ''t1'' ?fn 0 0 demoWorld"
    by (rule start)
  also have "\<dots> = ForEachUserCategory_from ?a ''u1'' ''t1'' ?fn (0 + 1)
      (accAfter ?fn ?first 0) ?w1"
    by (rule next_page[OF p0 all0[rule_format] full])
  also have "\<dots> =
     Some (None, accAfter ?fn (take (Suc 1) secondPage) (accAfter ?fn ?first 0),
       ?w1\<lparr>st := st demoWorld,
          trace := trace ?w1 @
            GetUserCategoriesCall ''u1'' ''t1'' \<lparr>Page = 0 + 1, PerPage = 50\<rparr> (Inr secondPage) #
            map (\<lambda>c. Visited c False None) (take 1 secondPage) @
            [Visited (secondPage ! 1) True None]\<rparr>)"
    by (rule stop[OF p1 i1 before[rule_format] at st])
  finally have run1: "ForEachUserCategory ?a ''u1'' ''t1'' ?fn 0 demoWorld =
     Some (None, accAfter ?fn (take (Suc 1) secondPage) (accAfter ?fn ?first 0),
       ?w1\<lparr>st := st demoWorld,
          trace := trace ?w1 @
            GetUserCategoriesCall ''u1'' ''t1'' \<lparr>Page = 0 + 1, PerPage = 50\<rparr> (Inr secondPage) #
            map (\<lambda>c. Visited c False None) (take 1 secondPage) @
            [Visited (secondPage ! 1) True None]\<rparr>)" .
  \<comment> \<open>second run: the store answers the second page with an error\<close>
  let ?b = "pagedApp (Inl (StoreError ''store is down''))"
  note T' = ForEachUserCategory_pages [of ?b "''u1''" "''t1''" ?fn 0 demoWorld]
  note start' = T'[THEN conjunct2, THEN conjunct1]
  note error' = T'[THEN conjunct2, THEN conjunct2, THEN conjunct1, rule_format]
  note next_page' = T'[THEN conjunct2, THEN conjunct2, THEN conjunct2, THEN conjunct2,
      THEN conjunct2, rule_format]
  have q0: "sGetUserCategories (store ?b) ''u1'' ''t1'' \<lparr>Page = 0, PerPage = 50\<rparr> (st demoWorld)
      = (Inr ?first, st demoWorld)"
    by (simp add: pagedApp_def)
  have q1: "sGetUserCategories (store ?b) ''u1'' ''t1'' \<lparr>Page = 0 + 1, PerPage = 50\<rparr> (st ?w1)
      = (Inl (StoreError ''store is down''), st demoWorld)"
    by (simp add: pagedApp_def)
  have "ForEachUserCategory ?b ''u1'' ''t1'' ?fn 0 demoWorld =
      ForEachUserCategory_from ?b ''u1'' ''t1'' ?fn 0 0 demoWorld"
    by (rule start')
  also have "\<dots> = ForEachUserCategory_from ?b ''u1'' ''t1'' ?fn (0 + 1)
      (accAfter ?fn ?first 0) ?w1"
    by (rule next_page'[OF q0 all0[rule_format] full])
  also have "\<dots> =
     Some (Some (StoreError ''store is down''), accAfter ?fn ?first 0,
       ?w1\<lparr>st := st demoWorld,
          trace := trace ?w1 @
            [GetUserCategoriesCall ''u1'' ''t1'' \<lparr>Page = 0 + 1, PerPage = 50\<rparr>
               (Inl (StoreError ''store is down''))]\<rparr>)"
    by (rule error'[OF q1])
  finally have run2: "ForEachUserCategory ?b ''u1'' ''t1'' ?fn 0 demoWorld =
     Some (Some (StoreError ''store is down''), accAfter ?fn ?first 0,
       ?w1\<lparr>st := st demoWorld,
          trace := trace ?w1 @
            [GetUserCategoriesCall ''u1'' ''t1'' \<lparr>Page = 0 + 1, PerPage = 50\<rparr>
               (Inl (StoreError ''store is down''))]\<rparr>)" .
  note returned = T[THEN conjunct1, rule_format, OF run1]
  from returned obtain evs where
    "trace (?w1\<lparr>st := st demoWorld,
          trace := trace ?w1 @
            GetUserCategoriesCall ''u1'' ''t1'' \<lparr>Page = 0 + 1, PerPage = 50\<rparr> (Inr secondPage) #
            map (\<lambda>c. Visited c False None) (take 1 secondPage) @
            [Visited (secondPage ! 1) True None]\<rparr>) = trace demoWorld @ evs"
    "pageCalls evs \<noteq> []" "\<forall>e\<in>set (butlast evs). \<not> stops e"
    "map fst (visits evs) = take (length (visits evs)) (listed evs)"
    "accAfter ?fn (take (Suc 1) secondPage) (accAfter ?fn ?first 0) =
       accAfter ?fn (map fst (visits evs)) 0"
    by (elim exE conjE)
  with run1 have third: "\<exists>r acc' w' evs.
         ForEachUserCategory ?a ''u1'' ''t1'' ?fn 0 demoWorld = Some (r, acc', w')
       \<and> trace w' = trace demoWorld @ evs \<and> pageCalls evs \<noteq> []
       \<and> (\<forall>e\<in>set (butlast evs). \<not> stops e)
       \<and> map fst (visits evs) = take (length (visits evs)) (listed evs)
       \<and> acc' = accAfter ?fn (map fst (visits evs)) 0"
    by blast
  have first: "ForEachUserCategory ?a ''u1'' ''t1'' ?fn 0 demoWorld =
     Some (None, 52,
       demoWorld\<lparr>trace :=
         GetUserCategoriesCall ''u1'' ''t1'' \<lparr>Page = 0, PerPage = 50\<rparr>
           (Inr (replicate 50 (asCategory rowWork))) #
         replicate 50 (Visited (asCategory rowWork) False None) @
         [GetUserCategoriesCall ''u1'' ''t1'' \<lparr>Page = 1, PerPage = 50\<rparr> (Inr secondPage),
          Visited (asCategory rowDefault) False None,
          Visited (asCategory rowOld) True None]\<rparr>)"
    unfolding run1
    by (simp add: accAfter_stopAt stopAt_def t0 secondPage_def map_replicate)
  have second: "ForEachUserCategory ?b ''u1'' ''t1'' ?fn 0 demoWorld =
     Some (Some (StoreError ''store is down''), 50,
       demoWorld\<lparr>trace :=
         GetUserCategoriesCall ''u1'' ''t1'' \<lparr>Page = 0, PerPage = 50\<rparr>
           (Inr (replicate 50 (asCategory rowWork))) #
         replicate 50 (Visited (asCategory rowWork) False None) @
         [GetUserCategoriesCall ''u1'' ''t1'' \<lparr>Page = 1, PerPage = 50\<rparr>
            (Inl (StoreError ''store is down''))]\<rparr>)"
    unfolding run2
    by (simp add: accAfter_stopAt t0 map_replicate)
  from first second third show ?thesis by (intro conjI)
qed

subsection \<open>ReorderCategories\<close>

text \<open>
  In the three theorems that follow, \<open>existing\<close> is the set of IDs the validation has
  collected when its enumeration of the scope returns without error: the IDs of the
  categories on the pages the store listed.
\<close>

text \<open>
  C2. When the length of the proposed order is not the number of existing IDs,
  \<open>ReorderCategories\<close> fails with \<open>errCategoriesLengthMismatch\<close>, wrapped with both
  lengths, the user and the team; the trace of the call has no call of the store's
  \<open>ReorderCategories\<close> and no reorder broadcast.
\<close>

theorem ReorderCategories_length_mismatch:
  assumes "ForEachUserCategory a userID teamID verify_fn {} w = Some (None, existing, w1)"
    and "length newCategoryOrder \<noteq> card existing"
  shows "ReorderCategories a userID teamID newCategoryOrder w =
      Some (Inl (Errorf
        ''%w length new categories: %d, length existing categories: %d, userID: %s, teamID: %s''
        [ArgErr errCategoriesLengthMismatch, ArgInt (int (length newCategoryOrder)),
         ArgInt (int (card existing)), ArgStr userID, ArgStr teamID]), w1)
    \<and> (\<exists>evs. trace w1 = trace w @ evs \<and> existing = ID ` set (listed evs) \<and>
          (\<forall>e\<in>set evs. (\<forall>u t order res. e \<noteq> ReorderCategoriesCall u t order res) \<and>
                        (\<forall>t u order. e \<noteq> BroadcastCategoryReorder t u order)))"
proof -
  from ForEachUserCategory_verify_fn[OF assms(1)] obtain evs where
    evs: "trace w1 = trace w @ evs" "existing = ID ` set (listed evs)"
      "\<forall>e\<in>set evs.
        isVisited e \<or> (\<exists>opts res. e = GetUserCategoriesCall userID teamID opts res)"
    by blast
  from evs(3) have "\<forall>e\<in>set evs. (\<forall>u t order res. e \<noteq> ReorderCategoriesCall u t order res) \<and>
                        (\<forall>t u order. e \<noteq> BroadcastCategoryReorder t u order)"
    by auto
  with evs(1,2) assms show ?thesis
    by (auto simp: ReorderCategories_def verifyNewCategoriesMatchExisting_def)
qed

theorem ReorderCategories_length_mismatch_witness:
  "\<exists>w1. ForEachUserCategory (demoApp id) ''u1'' ''t1'' verify_fn {} demoWorld
        = Some (None, {''default'', ''work''}, w1)
     \<and> length [''work''] \<noteq> card {''default'', ''work''}
     \<and> ReorderCategories (demoApp id) ''u1'' ''t1'' [''work''] demoWorld =
          Some (Inl (Errorf
            ''%w length new categories: %d, length existing categories: %d, userID: %s, teamID: %s''
            [ArgErr errCategoriesLengthMismatch, ArgInt 1, ArgInt 2, ArgStr ''u1'',
             ArgStr ''t1'']), w1)
     \<and> (\<forall>e\<in>set (trace w1). (\<forall>u t order res. e \<noteq> ReorderCategoriesCall u t order res) \<and>
                        (\<forall>t u order. e \<noteq> BroadcastCategoryReorder t u order))"
proof -
  from demo_enumeration [of id] obtain w1 where
    run: "ForEachUserCategory (demoApp id) ''u1'' ''t1'' verify_fn {} demoWorld
        = Some (None, {''default'', ''work''}, w1)" by blast
  have len: "length [''work''] \<noteq> card {''default'', ''work''}" by simp
  have t0: "trace demoWorld = []" by (simp add: demoWorld_def)
  from ReorderCategories_length_mismatch [OF run len] run len t0 show ?thesis
    by (auto simp: demo_card)
qed

text \<open>
  C6. When the proposed order is a permutation of the existing IDs, the validation
  succeeds; and when the store then answers its \<open>ReorderCategories\<close> with an order,
  this order, not the caller's list, is what the call returns and what it broadcasts.
\<close>

theorem ReorderCategories_returns_store_order:
  assumes "ForEachUserCategory a userID teamID verify_fn {} w = Some (None, existing, w1)"
    and "distinct newCategoryOrder" and "set newCategoryOrder = existing"
  shows "verifyNewCategoriesMatchExisting a userID teamID newCategoryOrder w = Some (None, w1)
    \<and> (\<forall>newOrder s2.
          sReorderCategories (store a) userID teamID newCategoryOrder (st w1) = (Inr newOrder, s2)
          \<longrightarrow> ReorderCategories a userID teamID newCategoryOrder w =
                Some (Inr newOrder,
                      w1\<lparr>st := s2,
                         trace := trace w1 @
                           [ReorderCategoriesCall userID teamID newCategoryOrder (Inr newOrder),
                            BroadcastCategoryReorder teamID userID newOrder]\<rparr>))
    \<and> (\<exists>evs. trace w1 = trace w @ evs \<and> existing = ID ` set (listed evs))"
proof -
  from assms(2,3) have len: "length newCategoryOrder = card existing"
    by (auto simp: distinct_card)
  from assms(3) have "verifyFound existing userID teamID newCategoryOrder = None"
    by (simp add: verifyFound_None_iff)
  with len assms(1)
  have v: "verifyNewCategoriesMatchExisting a userID teamID newCategoryOrder w = Some (None, w1)"
    by (simp add: verifyNewCategoriesMatchExisting_def)
  from ForEachUserCategory_verify_fn[OF assms(1)]
  have "\<exists>evs. trace w1 = trace w @ evs \<and> existing = ID ` set (listed evs)" by blast
  with v show ?thesis
    by (auto simp: ReorderCategories_def store_ReorderCategories_eq emit_def)
qed

theorem ReorderCategories_returns_store_order_witness:
  "\<exists>w1. ForEachUserCategory (demoApp rev) ''u1'' ''t1'' verify_fn {} demoWorld
        = Some (None, {''default'', ''work''}, w1)
     \<and> distinct [''work'', ''default'']
     \<and> set [''work'', ''default''] = {''default'', ''work''}
     \<and> sReorderCategories (store (demoApp rev)) ''u1'' ''t1'' [''work'', ''default''] (st w1)
          = (Inr [''default'', ''work''], st w1)
     \<and> ReorderCategories (demoApp rev) ''u1'' ''t1'' [''work'', ''default''] demoWorld =
          Some (Inr [''default'', ''work''],
                w1\<lparr>trace := trace w1 @
                   [ReorderCategoriesCall ''u1'' ''t1'' [''work'', ''default'']
                      (Inr [''default'', ''work'']),
                    BroadcastCategoryReorder ''t1'' ''u1'' [''default'', ''work'']]\<rparr>)"
proof -
  from demo_enumeration [of rev] obtain w1 where
    run: "ForEachUserCategory (demoApp rev) ''u1'' ''t1'' verify_fn {} demoWorld
        = Some (None, {''default'', ''work''}, w1)" by blast
  have d: "distinct [''work'', ''default'']" by simp
  have s: "set [''work'', ''default''] = {''default'', ''work''}" by auto
  have c: "sReorderCategories (store (demoApp rev)) ''u1'' ''t1'' [''work'', ''default''] (st w1)
          = (Inr [''default'', ''work''], st w1)"
    by (simp add: demoApp_def memStore_def)
  from ReorderCategories_returns_store_order [OF run d s] c run d s show ?thesis
    by auto
qed

text \<open>
  C8. The validation accepts a proposed order exactly when its length is the number of
  existing IDs and each of its IDs is an existing one. Nothing asks for distinct IDs:
  an accepted order, duplicates included, is the argument of the store's
  \<open>ReorderCategories\<close> as it came.
\<close>

theorem verifyNewCategoriesMatchExisting_accepts_iff:
  assumes "ForEachUserCategory a userID teamID verify_fn {} w = Some (None, existing, w1)"
  shows "(\<exists>r. verifyNewCategoriesMatchExisting a userID teamID newCategoryOrder w = Some (r, w1)
            \<and> (r = None \<longleftrightarrow>
                 length newCategoryOrder = card existing \<and> set newCategoryOrder \<subseteq> existing))
    \<and> (length newCategoryOrder = card existing \<and> set newCategoryOrder \<subseteq> existing \<longrightarrow>
          (\<exists>r w' res rest.
              ReorderCategories a userID teamID newCategoryOrder w = Some (r, w') \<and>
              trace w' = trace w1 @
                ReorderCategoriesCall userID teamID newCategoryOrder res # rest))
    \<and> (\<exists>evs. trace w1 = trace w @ evs \<and> existing = ID ` set (listed evs))"
proof -
  have v: "\<exists>r. verifyNewCategoriesMatchExisting a userID teamID newCategoryOrder w = Some (r, w1)
            \<and> (r = None \<longleftrightarrow>
                 length newCategoryOrder = card existing \<and> set newCategoryOrder \<subseteq> existing)"
    using assms by (simp add: verifyNewCategoriesMatchExisting_def verifyFound_None_iff)
  have c: "\<exists>r w' res rest.
              ReorderCategories a userID teamID newCategoryOrder w = Some (r, w') \<and>
              trace w' = trace w1 @
                ReorderCategoriesCall userID teamID newCategoryOrder res # rest"
    if "length newCategoryOrder = card existing \<and> set newCategoryOrder \<subseteq> existing"
  proof -
    from that assms
    have "verifyNewCategoriesMatchExisting a userID teamID newCategoryOrder w = Some (None, w1)"
      by (simp add: verifyNewCategoriesMatchExisting_def verifyFound_None_iff)
    then show ?thesis
      by (cases "sReorderCategories (store a) userID teamID newCategoryOrder (st w1)")
         (auto simp: ReorderCategories_def store_ReorderCategories_eq emit_def
               split: sum.splits)
  qed
  from ForEachUserCategory_verify_fn[OF assms]
  have "\<exists>evs. trace w1 = trace w @ evs \<and> existing = ID ` set (listed evs)" by blast
  with v c show ?thesis by blast
qed

theorem verifyNewCategoriesMatchExisting_accepts_iff_witness:
  "\<exists>w1. ForEachUserCategory (demoApp id) ''u1'' ''t1'' verify_fn {} demoWorld
        = Some (None, {''default'', ''work''}, w1)
     \<and> length [''work'', ''work''] = card {''default'', ''work''}
     \<and> set [''work'', ''work''] \<subseteq> {''default'', ''work''}
     \<and> \<not> distinct [''work'', ''work'']
     \<and> verifyNewCategoriesMatchExisting (demoApp id) ''u1'' ''t1'' [''work'', ''work''] demoWorld
          = Some (None, w1)
     \<and> (\<exists>r w' res rest.
          ReorderCategories (demoApp id) ''u1'' ''t1'' [''work'', ''work''] demoWorld = Some (r, w') \<and>
          trace w' = trace w1 @ ReorderCategoriesCall ''u1'' ''t1'' [''work'', ''work''] res # rest)"
proof -
  from demo_enumeration [of id] obtain w1 where
    run: "ForEachUserCategory (demoApp id) ''u1'' ''t1'' verify_fn {} demoWorld
        = Some (None, {''default'', ''work''}, w1)" by blast
  have l: "length [''work'', ''work''] = card {''default'', ''work''}" by simp
  have s: "set [''work'', ''work''] \<subseteq> {''default'', ''work''}" by simp
  have d: "\<not> distinct [''work'', ''work'']" by simp
  from verifyNewCategoriesMatchExisting_accepts_iff [OF run, of "[''work'', ''work'']"] l s
  have "verifyNewCategoriesMatchExisting (demoApp id) ''u1'' ''t1'' [''work'', ''work''] demoWorld
          = Some (None, w1)"
    and "\<exists>r w' res rest.
          ReorderCategories (demoApp id) ''u1'' ''t1'' [''work'', ''work''] demoWorld = Some (r, w') \<and>
          trace w' = trace w1 @ ReorderCategoriesCall ''u1'' ''t1'' [''work'', ''work''] res # rest"
    by auto
  with run l s d show ?thesis by blast
qed

subsection \<open>DeleteCategory: the migration and the delete\<close>





























end
